theory Spec2Isabelle
  imports Complex_Main "HOL-Library.Multiset" "HOL-Library.AList"
begin

section \<open>Python values, errors and dictionaries\<close>

text \<open>
  The exceptions that the modelled functions of \<^verbatim>\<open>_utils.py\<close> and
  \<^verbatim>\<open>session.py\<close> can raise. A function that may raise returns
  \<open>error + 'a\<close>, with \<open>Inl\<close> for the exception.
\<close>

datatype error =
    IndexError
  | KeyError
  | ValueError
  | AssertionError
  | AttributeError
  | NotImplementedError

text \<open>
  A Python \<^verbatim>\<open>dict\<close> is an association list with distinct keys, in insertion order.
  \<^verbatim>\<open>d[k] = v\<close> is \<^const>\<open>AList.update\<close> (an existing key keeps its place and
  gets the new value, a new key goes to the end), \<^verbatim>\<open>d[k]\<close> is \<^const>\<open>map_of\<close>,
  and \<^verbatim>\<open>d.update(other)\<close> stores the items of \<^verbatim>\<open>other\<close> one after the other.
\<close>

type_synonym ('k, 'v) dict = "('k \<times> 'v) list"

definition dict_update :: "('k, 'v) dict \<Rightarrow> ('k, 'v) dict \<Rightarrow> ('k, 'v) dict" where
  "dict_update d other = fold (\<lambda>(k, v). AList.update k v) other d"

section \<open>Diff records: \<^verbatim>\<open>update_info\<close> and \<^verbatim>\<open>_process_ups\<close>\<close>

text \<open>The values that the fields of an \<^verbatim>\<open>UpdateInfo\<close> hold.\<close>

datatype pyval =
    PNone
  | PStr string
  | PInt int
  | PList "int list"
  | PPairs "(int \<times> int) list"
  | PDict "(int, int list) dict"

text \<open>
  An \<^verbatim>\<open>UpdateInfo\<close> is a \<^verbatim>\<open>Bunch\<close>, a \<^verbatim>\<open>dict\<close> subclass keyed by field name.
  \<^verbatim>\<open>update_info(**kwargs)\<close> builds the dictionary of the ten defaults and then
  updates it with the keyword arguments, so every record made by it has all ten keys.
\<close>

type_synonym update_info = "(string, pyval) dict"

definition update_info_defaults :: update_info where
  "update_info_defaults =
     [(''description'', PNone),
      (''history'', PNone),
      (''spikes'', PList []),
      (''added'', PList []),
      (''deleted'', PList []),
      (''descendants'', PPairs []),
      (''metadata_changed'', PList []),
      (''metadata_value'', PNone),
      (''old_spikes_per_cluster'', PDict []),
      (''new_spikes_per_cluster'', PDict [])]"

definition update_info :: "(string, pyval) dict \<Rightarrow> update_info" where
  "update_info kwargs = dict_update update_info_defaults kwargs"

text \<open>
  \<^verbatim>\<open>_process_ups(ups)\<close>: \<^verbatim>\<open>None\<close> for no record, the record itself for one,
  \<^verbatim>\<open>ups[0].update(ups[1])\<close> for two, \<^verbatim>\<open>NotImplementedError\<close> otherwise.
\<close>

fun process_ups :: "update_info list \<Rightarrow> error + update_info option" where
  "process_ups [] = Inr None"
| "process_ups [up] = Inr (Some up)"
| "process_ups [up0, up1] = Inr (Some (dict_update up0 up1))"
| "process_ups ups = Inl NotImplementedError"

text \<open>
  Two records of one user action, as \<^verbatim>\<open>Clustering.merge\<close> and the cluster metadata
  would make them with \<^verbatim>\<open>UpdateInfo(...)\<close>: a merge of clusters 1 and 2 into 3, and a
  change of the group of cluster 3.
\<close>

definition up_merge :: update_info where
  "up_merge = update_info
     [(''description'', PStr ''merge''),
      (''spikes'', PList [0, 1, 2, 3, 4]),
      (''added'', PList [3]),
      (''deleted'', PList [1, 2]),
      (''descendants'', PPairs [(1, 3), (2, 3)])]"

definition up_metadata :: update_info where
  "up_metadata = update_info
     [(''description'', PStr ''metadata_group''),
      (''metadata_changed'', PList [3]),
      (''metadata_value'', PInt 2)]"

section \<open>The utility functions of \<^verbatim>\<open>_utils.py\<close>\<close>

text \<open>
  \<^verbatim>\<open>np.argsort\<close>: a permutation of the positions that sorts the values. This one is
  the stable one. numpy's default sort is not stable: \<open>is_argsort\<close> is what every sort
  kind guarantees, and results about ties are proved from \<open>is_argsort\<close> alone.
\<close>

definition argsort :: "('a :: linorder) list \<Rightarrow> nat list" where
  "argsort xs = map snd (sort_key fst (zip xs [0..<length xs]))"

definition is_argsort :: "nat list \<Rightarrow> ('a :: linorder) list \<Rightarrow> bool" where
  "is_argsort p xs = (mset p = mset [0..<length xs] \<and> sorted (map (\<lambda>i. xs ! i) p))"

text \<open>
  Cluster labels are 64-bit signed integers (the dtype \<^verbatim>\<open>np.int64\<close> that the module
  gives the cluster arrays it builds), so the differences that \<^verbatim>\<open>np.diff\<close> takes
  wrap around: \<open>int64 x\<close> is the value of \<open>x\<close> in two's complement on 64 bits.
\<close>

definition int64 :: "int \<Rightarrow> int" where
  "int64 x = (x + 2 ^ 63) mod 2 ^ 64 - 2 ^ 63"

definition np_diff :: "int list \<Rightarrow> int list" where
  "np_diff xs = map (\<lambda>i. int64 (xs ! (i + 1) - xs ! i)) [0..<length xs - 1]"

text \<open>The slice \<^verbatim>\<open>xs[a:b]\<close> for indices that are not negative.\<close>

definition slice :: "'a list \<Rightarrow> nat \<Rightarrow> nat \<Rightarrow> 'a list" where
  "slice xs a b = take (b - a) (drop a xs)"

text \<open>
  \<^verbatim>\<open>_spikes_per_cluster(spike_ids, spike_clusters)\<close>, with \<^verbatim>\<open>np.argsort\<close> as a
  parameter. Indexing an array beyond its end raises \<^verbatim>\<open>IndexError\<close>, and so does
  \<^verbatim>\<open>diff[0] = 1\<close> on an empty array. The dictionary comprehension stores the
  clusters but the last, the last is stored after it.
\<close>

definition spikes_per_cluster ::
  "(int list \<Rightarrow> nat list) \<Rightarrow> ('a :: linorder) list \<Rightarrow> int list \<Rightarrow> error + (int, 'a list) dict" where
  "spikes_per_cluster np_argsort spike_ids spike_clusters =
     (let rel_spikes = np_argsort spike_clusters
      in if list_ex (\<lambda>i. length spike_ids \<le> i \<or> length spike_clusters \<le> i) rel_spikes
         then Inl IndexError
         else
           (let abs_spikes = map (\<lambda>i. spike_ids ! i) rel_spikes;
                spike_clusters = map (\<lambda>i. spike_clusters ! i) rel_spikes
            in if spike_clusters = [] then Inl IndexError
               else
                 (let diff = 1 # np_diff spike_clusters;
                      idx = [i \<leftarrow> [0..<length diff]. 0 < diff ! i];
                      clusters = map (\<lambda>i. spike_clusters ! i) idx;
                      spikes_in_clusters =
                        fold (\<lambda>i. AList.update (clusters ! i)
                                     (sort (slice abs_spikes (idx ! i) (idx ! (i + 1)))))
                             [0..<length clusters - 1] []
                  in Inr (AList.update (last clusters) (sort (drop (last idx) abs_spikes))
                            spikes_in_clusters))))"

text \<open>
  The spike ids that are assigned to a cluster: those at the positions where
  \<^verbatim>\<open>spike_clusters\<close> has the label of the cluster.
\<close>

definition members :: "'a list \<Rightarrow> int list \<Rightarrow> int \<Rightarrow> 'a list" where
  "members spike_ids spike_clusters c =
     map snd [p \<leftarrow> zip spike_clusters spike_ids. fst p = c]"

text \<open>
  In the sorted labels, a position is a boundary when it is the first position or its
  label is greater than the label before it; a block goes from a boundary to the next
  one, or to the end.
\<close>

definition boundary :: "int list \<Rightarrow> nat \<Rightarrow> bool" where
  "boundary sc i = (i = 0 \<or> sc ! (i - 1) < sc ! i)"

definition boundaries :: "int list \<Rightarrow> nat list" where
  "boundaries sc = filter (boundary sc) [0..<length sc]"

definition block_end :: "int list \<Rightarrow> nat \<Rightarrow> nat" where
  "block_end sc t = (if t + 1 < length (boundaries sc) then boundaries sc ! (t + 1) else length sc)"

text \<open>
  \<^verbatim>\<open>_concatenate_per_cluster_arrays(spikes_per_cluster, arrays)\<close>, with \<^verbatim>\<open>np.argsort\<close>
  as a parameter and \<open>spc\<close> for \<^verbatim>\<open>spikes_per_cluster\<close>. An array is the list of
  its rows, and \<^verbatim>\<open>_as_array\<close> leaves it as it is. The two assertions raise
  \<^verbatim>\<open>AssertionError\<close>, and \<^verbatim>\<open>np.concatenate\<close> of an empty list of arrays raises
  \<^verbatim>\<open>ValueError\<close>.
\<close>

definition concatenate_per_cluster_arrays ::
  "(('s :: linorder) list \<Rightarrow> nat list) \<Rightarrow> (int, 's list) dict \<Rightarrow> (int, 'r list) dict
     \<Rightarrow> error + 'r list" where
  "concatenate_per_cluster_arrays np_argsort spc arrays =
     (if \<not> set (map fst arrays) \<subseteq> set (map fst spc) then Inl AssertionError
      else
        (let clusters = sort (map fst arrays);
             n_0 = map (\<lambda>cluster. length (the (map_of spc cluster))) clusters;
             n_1 = map (\<lambda>cluster. length (the (map_of arrays cluster))) clusters
         in if n_0 \<noteq> n_1 then Inl AssertionError
            else if clusters = [] then Inl ValueError
            else
              (let spikes = concat (map (\<lambda>cluster. the (map_of spc cluster))
                                        clusters);
                   idx = np_argsort spikes;
                   arrays = concat (map (\<lambda>cluster. the (map_of arrays cluster)) clusters)
               in if list_ex (\<lambda>i. length arrays \<le> i) idx then Inl IndexError
                  else Inr (map (\<lambda>i. arrays ! i) idx))))"

text \<open>
  All the spikes of the given clusters, in the order in which the function concatenates
  them, and the rank of a spike among them: the number of spikes with a smaller id,
  which is its position once they are ordered by ascending id.
\<close>

definition concatenated :: "(int, 'v list) dict \<Rightarrow> int list \<Rightarrow> 'v list" where
  "concatenated d clusters = concat (map (\<lambda>cluster. the (map_of d cluster)) clusters)"

definition rank :: "('s :: linorder) list \<Rightarrow> 's \<Rightarrow> nat" where
  "rank spikes s = length [t \<leftarrow> spikes. t < s]"

text \<open>
  Five spikes in three clusters, and the rows of the per-spike array
  \<open>[a, b, c, d, e]\<close> distributed over the clusters.
\<close>

definition five_spikes :: "(int, nat list) dict" where
  "five_spikes = [(7, [0, 2]), (3, [1, 3]), (5, [4])]"

definition five_rows :: "(int, string list) dict" where
  "five_rows = [(7, [''a'', ''c'']), (3, [''b'', ''d'']), (5, [''e''])]"

section \<open>The cluster store of \<^verbatim>\<open>session.py\<close>\<close>

subsection \<open>Arrays and floating-point values\<close>

text \<open>
  The two persistent fields of \<^verbatim>\<open>FeatureMasks\<close>, in the order of the tuple
  \<^verbatim>\<open>('masks', 'features')\<close> that the code loops over.
\<close>

datatype field = Masks | Features

definition names :: "field list" where
  "names = [Masks, Features]"

text \<open>
  A stored array is its shape and one flat row per index of the first axis. Stored
  numbers are reals. A value computed by a division is a \<open>float\<close>: \<open>None\<close> is the
  \<^verbatim>\<open>nan\<close> that numpy returns for \<^verbatim>\<open>0 / 0.0\<close> (the mean over no rows), where
  division in HOL would return 0.
\<close>

record ndarray =
  shape :: "nat list"
  rows :: "real list list"

type_synonym float = "real option"

definition np_zeros :: "nat list \<Rightarrow> ndarray" where
  "np_zeros shp = \<lparr>shape = shp, rows = replicate (hd shp) (replicate (prod_list (tl shp)) 0)\<rparr>"

definition all_zero :: "real list \<Rightarrow> bool" where
  "all_zero r = list_all (\<lambda>x. x = 0) r"

definition fdiv :: "float \<Rightarrow> nat \<Rightarrow> float" where
  "fdiv x n = (case x of None \<Rightarrow> None | Some v \<Rightarrow> if n = 0 then None else Some (v / real n))"

definition fmul :: "real \<Rightarrow> float \<Rightarrow> float" where
  "fmul p w = map_option (\<lambda>v. p * v) w"

definition fsum :: "float list \<Rightarrow> float" where
  "fsum xs = (if None \<in> set xs then None else Some (sum_list (map the xs)))"

definition fgt :: "float \<Rightarrow> real \<Rightarrow> bool" where
  "fgt x t = (case x of None \<Rightarrow> False | Some v \<Rightarrow> t < v)"

text \<open>\<^verbatim>\<open>np.argsort\<close> on floats: \<^verbatim>\<open>nan\<close> sorts last.\<close>

definition argsort_float :: "float list \<Rightarrow> nat list" where
  "argsort_float xs =
     map snd (sort_key fst [(v, i). (Some v, i) \<leftarrow> zip xs [0..<length xs]])
     @ [i. (None, i) \<leftarrow> zip xs [0..<length xs]]"

text \<open>\<^verbatim>\<open>np.intersect1d(a, b)\<close>: the sorted, unique values that are in both arrays.\<close>

definition intersect1d :: "nat list \<Rightarrow> nat list \<Rightarrow> nat list" where
  "intersect1d a b = sort (remdups [x \<leftarrow> a. x \<in> set b])"

subsection \<open>The model, the stores and the progress reporter\<close>

text \<open>
  What \<^verbatim>\<open>FeatureMasks\<close> reads of \<^verbatim>\<open>self.model\<close>: \<^verbatim>\<open>features_masks[spike][column]\<close>
  is the pair of the feature (index 0 of the last axis) and the mask (index 1), and
  \<^verbatim>\<open>positions\<close> is \<^verbatim>\<open>probe.positions\<close>, one row of \<open>positions_ndim\<close> coordinates
  per channel.
\<close>

record kwik_model =
  spike_clusters :: "int list"
  features_masks :: "(real \<times> real) list list"
  nfeatures_per_channel :: nat
  n_channels :: nat
  positions :: "real list list"
  positions_ndim :: nat

record extra_fields =
  mean_masks :: "float list"
  sum_masks :: "real list"
  n_unmasked_channels :: nat
  mean_probe_position :: "float list"
  main_channels :: "nat list"

text \<open>
  Modelled from the spec: \<^verbatim>\<open>ProgressReporter\<close> (\<^verbatim>\<open>utils/event.py\<close>) is not among
  the sources. The progress sink receives a maximum and increments for the two
  channels \<^verbatim>\<open>features_masks\<close> and \<^verbatim>\<open>masks_extra\<close>; it has a state of its own and
  no access to the stores.
\<close>

record progress_reporter =
  max_features_masks :: nat
  max_masks_extra :: nat
  value_features_masks :: nat
  value_masks_extra :: nat

definition set_max :: "nat \<Rightarrow> nat \<Rightarrow> progress_reporter \<Rightarrow> progress_reporter" where
  "set_max fm_max extra_max pr = pr\<lparr>max_features_masks := fm_max, max_masks_extra := extra_max\<rparr>"

datatype channel = Ch_features_masks | Ch_masks_extra

definition increment :: "channel \<Rightarrow> nat \<Rightarrow> progress_reporter \<Rightarrow> progress_reporter" where
  "increment ch n pr =
     (case ch of
        Ch_features_masks \<Rightarrow> pr\<lparr>value_features_masks := value_features_masks pr + n\<rparr>
      | Ch_masks_extra \<Rightarrow> pr\<lparr>value_masks_extra := value_masks_extra pr + n\<rparr>)"

text \<open>
  Modelled from the spec: \<^verbatim>\<open>DiskStore\<close> and \<^verbatim>\<open>MemoryStore\<close> (\<^verbatim>\<open>store.py\<close>) are not
  among the sources. The disk store holds one array per cluster and field name:
  \<^verbatim>\<open>load\<close> returns it, or \<^verbatim>\<open>None\<close> when there is none, \<^verbatim>\<open>store\<close> replaces it.
  \<^verbatim>\<open>cluster_file\<close> opens a handle on the file of a cluster, and an array obtained from
  the handle writes through to the stored array. The memory store holds the extra
  fields of a cluster. The state also has the handles that are open, the warnings
  logged so far, and \<^verbatim>\<open>self.progress_reporter\<close>.
\<close>

record store_state =
  disk :: "int \<times> field \<Rightarrow> ndarray option"
  memory :: "int \<Rightarrow> extra_fields option"
  open_files :: "(field \<times> int) multiset"
  warnings :: "(field \<times> int) list"
  reporter :: "progress_reporter option"

subsection \<open>\<^verbatim>\<open>_prepare_file\<close> and \<^verbatim>\<open>_clusters_to_store\<close>\<close>

definition recreate :: "field \<Rightarrow> int \<Rightarrow> nat list \<Rightarrow> store_state \<Rightarrow> (error + bool) \<times> store_state" where
  "recreate name cluster shp s =
     (Inr True, s\<lparr>disk := (disk s)((cluster, name) \<mapsto> np_zeros shp)\<rparr>)"

text \<open>
  \<^verbatim>\<open>_prepare_file(name, cluster, shape, dtype)\<close>. \<^verbatim>\<open>arr[0]\<close> raises
  \<^verbatim>\<open>IndexError\<close> on an array without rows. When the first and the last row are all
  zero the code warns and, having no \<^verbatim>\<open>return\<close> in that branch, goes on to recreate
  the file.
\<close>

definition prepare_file :: "field \<Rightarrow> int \<Rightarrow> nat list \<Rightarrow> store_state \<Rightarrow> (error + bool) \<times> store_state" where
  "prepare_file name cluster shp s =
     (case disk s (cluster, name) of
        None \<Rightarrow> recreate name cluster shp s
      | Some arr \<Rightarrow>
          if shape arr = shp then
            (if rows arr = [] then (Inl IndexError, s)
             else if all_zero (hd (rows arr)) \<and> all_zero (last (rows arr))
               then recreate name cluster shp (s\<lparr>warnings := warnings s @ [(name, cluster)]\<rparr>)
               else (Inr False, s))
          else recreate name cluster shp s)"

definition expected_shape :: "kwik_model \<Rightarrow> field \<Rightarrow> nat \<Rightarrow> nat list" where
  "expected_shape m name n_spikes =
     (case name of
        Masks \<Rightarrow> [n_spikes, n_channels m]
      | Features \<Rightarrow> [n_spikes, n_channels m, nfeatures_per_channel m])"

text \<open>
  \<^verbatim>\<open>to_store[cluster]\<close> is the pair of the flags of \<^verbatim>\<open>'masks'\<close> and \<^verbatim>\<open>'features'\<close>.
\<close>

type_synonym to_store = "(int, bool \<times> bool) dict"

definition flag :: "field \<Rightarrow> bool \<times> bool \<Rightarrow> bool" where
  "flag name fl = (case name of Masks \<Rightarrow> fst fl | Features \<Rightarrow> snd fl)"

fun clusters_to_store_loop ::
  "kwik_model \<Rightarrow> (int \<times> nat) list \<Rightarrow> to_store \<Rightarrow> store_state \<Rightarrow> (error + to_store) \<times> store_state" where
  "clusters_to_store_loop m [] ts s = (Inr ts, s)"
| "clusters_to_store_loop m ((cluster, n_spikes) # rest) ts s =
     (case prepare_file Masks cluster (expected_shape m Masks n_spikes) s of
        (Inl e, s1) \<Rightarrow> (Inl e, s1)
      | (Inr fm, s1) \<Rightarrow>
          (case prepare_file Features cluster (expected_shape m Features n_spikes) s1 of
             (Inl e, s2) \<Rightarrow> (Inl e, s2)
           | (Inr ff, s2) \<Rightarrow>
               clusters_to_store_loop m rest (AList.update cluster (fm, ff) ts) s2))"

definition clusters_to_store ::
  "kwik_model \<Rightarrow> (int, nat list) dict \<Rightarrow> store_state \<Rightarrow> (error + to_store) \<times> store_state" where
  "clusters_to_store m spc s =
     (let sizes = map (\<lambda>(cluster, spikes). (cluster, length spikes)) spc
      in clusters_to_store_loop m (sort_key fst sizes) [] s)"

subsection \<open>\<^verbatim>\<open>_store_extra_fields\<close>\<close>

text \<open>
  \<^verbatim>\<open>positions * mean_masks[:, np.newaxis]\<close> multiplies the row of each channel by the
  mean mask of that channel. numpy broadcasts when one of the two has a single row
  and raises \<^verbatim>\<open>ValueError\<close> when the numbers of rows differ otherwise.
\<close>

definition weighted_positions :: "real list list \<Rightarrow> float list \<Rightarrow> error + float list list" where
  "weighted_positions pos w =
     (if length pos = length w then Inr (map2 (\<lambda>p wc. map (\<lambda>x. fmul x wc) p) pos w)
      else if length w = 1 then Inr (map (\<lambda>p. map (\<lambda>x. fmul x (hd w)) p) pos)
      else if length pos = 1 then Inr (map (\<lambda>wc. map (\<lambda>x. fmul x wc) (hd pos)) w)
      else Inl ValueError)"

text \<open>\<^verbatim>\<open>a.mean(axis=0)\<close> of an array with \<open>d\<close> columns.\<close>

definition mean_axis0 :: "nat \<Rightarrow> float list list \<Rightarrow> float list" where
  "mean_axis0 d a = map (\<lambda>j. fdiv (fsum (map (\<lambda>r. r ! j) a)) (length a)) [0..<d]"

text \<open>
  \<^verbatim>\<open>_store_extra_fields(cluster, features, masks)\<close>, with the threshold \<^verbatim>\<open>1e-3\<close>.
  \<^verbatim>\<open>masks\<close> is what \<^verbatim>\<open>load\<close> returned, so \<^verbatim>\<open>masks.sum\<close> raises
  \<^verbatim>\<open>AttributeError\<close> when it is \<^verbatim>\<open>None\<close>; \<^verbatim>\<open>features\<close> is not used.
\<close>

definition extra_fields_of :: "kwik_model \<Rightarrow> ndarray \<Rightarrow> error + extra_fields" where
  "extra_fields_of m masks =
     (let sum_masks = map (\<lambda>j. sum_list (map (\<lambda>r. r ! j) (rows masks)))
                          [0..<prod_list (tl (shape masks))];
          mean_masks = map (\<lambda>x. fdiv (Some x) (hd (shape masks))) sum_masks;
          unmasked_channels = [j \<leftarrow> [0..<length mean_masks]. fgt (mean_masks ! j) (1 / 1000)];
          n_unmasked_channels = length unmasked_channels
      in case weighted_positions (positions m) mean_masks of
           Inl e \<Rightarrow> Inl e
         | Inr wp \<Rightarrow>
             Inr \<lparr>mean_masks = mean_masks,
                  sum_masks = sum_masks,
                  n_unmasked_channels = n_unmasked_channels,
                  mean_probe_position = mean_axis0 (positions_ndim m) wp,
                  main_channels = intersect1d (rev (argsort_float mean_masks)) unmasked_channels\<rparr>)"

definition store_extra_fields ::
  "kwik_model \<Rightarrow> int \<Rightarrow> ndarray option \<Rightarrow> ndarray option \<Rightarrow> store_state \<Rightarrow> (error + unit) \<times> store_state" where
  "store_extra_fields m cluster features masks s =
     (case masks of
        None \<Rightarrow> (Inl AttributeError, s)
      | Some a \<Rightarrow>
          (case extra_fields_of m a of
             Inl e \<Rightarrow> (Inl e, s)
           | Inr x \<Rightarrow> (Inr (), s\<lparr>memory := (memory s)(cluster \<mapsto> x)\<rparr>)))"

subsection \<open>\<^verbatim>\<open>store_all_clusters\<close>\<close>

text \<open>\<^verbatim>\<open>_spikes_in_clusters\<close> of \<^verbatim>\<open>_utils.py\<close>: the positions, in ascending order.\<close>

definition spikes_in_clusters :: "int list \<Rightarrow> int list \<Rightarrow> nat list" where
  "spikes_in_clusters sc clusters =
     (if length sc = 0 \<or> length clusters = 0 then []
      else [i \<leftarrow> [0..<length sc]. sc ! i \<in> set clusters])"

text \<open>
  \<^verbatim>\<open>_data(name, spike)\<close>, as the shape and the flat values. \<^verbatim>\<open>fm[spike]\<close> raises
  \<^verbatim>\<open>IndexError\<close> beyond the array, \<^verbatim>\<open>reshape\<close> raises \<^verbatim>\<open>ValueError\<close> when the
  slice has not \<^verbatim>\<open>n_channels * n_features\<close> values, and so does a slice with step 0.
\<close>

definition data :: "kwik_model \<Rightarrow> field \<Rightarrow> nat \<Rightarrow> error + nat list \<times> real list" where
  "data m name spike =
     (let fm = features_masks m;
          n_features = nfeatures_per_channel m;
          n_channels = n_channels m
      in if length fm \<le> spike then Inl IndexError
         else case name of
           Features \<Rightarrow>
             (let v = map fst (take (n_features * n_channels) (fm ! spike))
              in if length v = n_channels * n_features
                 then Inr ([n_channels, n_features], v) else Inl ValueError)
         | Masks \<Rightarrow>
             if n_features = 0 then Inl ValueError
             else (let v = map (\<lambda>j. snd (fm ! spike ! j))
                             [j \<leftarrow> [0..<min (n_features * n_channels) (length (fm ! spike))].
                                j mod n_features = 0]
                   in Inr ([length v], v)))"

text \<open>
  \<^verbatim>\<open>arr[i, ...] = data\<close> on a row of shape \<open>row_shape\<close>: the values are copied when
  the shapes agree, a single value is broadcast to the whole row, and numpy raises
  \<^verbatim>\<open>ValueError\<close> otherwise. (The features have the shape of the rows of the array
  that \<^verbatim>\<open>_prepare_file\<close> created, and the masks are one-dimensional, so no other
  broadcast can arise.)
\<close>

definition assign_row :: "nat list \<Rightarrow> nat list \<times> real list \<Rightarrow> error + real list" where
  "assign_row row_shape d =
     (if fst d = row_shape then Inr (snd d)
      else if length (snd d) = 1 \<and> length (fst d) \<le> length row_shape
        then Inr (replicate (prod_list row_shape) (hd (snd d)))
        else Inl ValueError)"

text \<open>
  The local variables of a pass: the keys of \<^verbatim>\<open>files\<close> (and of \<^verbatim>\<open>arrays\<close>, which
  are filled together) in the order in which \<^verbatim>\<open>_arr\<close> opened them, and \<^verbatim>\<open>cursors\<close>,
  a \<^verbatim>\<open>defaultdict(int)\<close> per name.
\<close>

type_synonym pass_vars = "(field \<times> int) list \<times> (field \<times> int \<Rightarrow> nat)"

text \<open>
  \<^verbatim>\<open>_arr(cluster, name)\<close> opens the cluster file unless \<^verbatim>\<open>files[name]\<close> has it.
\<close>

definition arr_open :: "int \<Rightarrow> field \<Rightarrow> (field \<times> int) list \<Rightarrow> store_state \<Rightarrow> (field \<times> int) list \<times> store_state" where
  "arr_open cluster name files s =
     (if (name, cluster) \<in> set files then (files, s)
      else (files @ [(name, cluster)],
            s\<lparr>open_files := add_mset (name, cluster) (open_files s)\<rparr>))"

text \<open>The body of the loop over \<^verbatim>\<open>names\<close>, for one spike and one name.\<close>

definition store_field ::
  "kwik_model \<Rightarrow> to_store \<Rightarrow> nat \<Rightarrow> int \<Rightarrow> field \<Rightarrow> pass_vars \<Rightarrow> store_state
     \<Rightarrow> (error + pass_vars) \<times> store_state" where
  "store_field m ts spike cluster name v s =
     (case map_of ts cluster of
        None \<Rightarrow> (Inl KeyError, s)
      | Some fl \<Rightarrow>
          if \<not> flag name fl then (Inr v, s)
          else
            (case data m name spike of
               Inl e \<Rightarrow> (Inl e, s)
             | Inr d \<Rightarrow>
                 (let (files, s1) = arr_open cluster name (fst v) s
                  in case disk s1 (cluster, name) of
                       None \<Rightarrow> (Inl KeyError, s1)
                     | Some arr \<Rightarrow>
                         (let i = snd v (name, cluster)
                          in if length (rows arr) \<le> i then (Inl IndexError, s1)
                             else case assign_row (tl (shape arr)) d of
                                    Inl e \<Rightarrow> (Inl e, s1)
                                  | Inr r \<Rightarrow>
                                      (Inr (files, (snd v)((name, cluster) := i + 1)),
                                       s1\<lparr>disk := (disk s1)((cluster, name) \<mapsto>
                                                     arr\<lparr>rows := (rows arr)[i := r]\<rparr>)\<rparr>)))))"

fun store_fields ::
  "kwik_model \<Rightarrow> to_store \<Rightarrow> nat \<Rightarrow> int \<Rightarrow> field list \<Rightarrow> pass_vars \<Rightarrow> store_state
     \<Rightarrow> (error + pass_vars) \<times> store_state" where
  "store_fields m ts spike cluster [] v s = (Inr v, s)"
| "store_fields m ts spike cluster (name # rest) v s =
     (case store_field m ts spike cluster name v s of
        (Inl e, s1) \<Rightarrow> (Inl e, s1)
      | (Inr v1, s1) \<Rightarrow> store_fields m ts spike cluster rest v1 s1)"

definition report_spike :: "nat \<Rightarrow> store_state \<Rightarrow> store_state" where
  "report_spike iteration s =
     (case reporter s of
        None \<Rightarrow> s
      | Some pr \<Rightarrow>
          if iteration mod 100 = 0
          then s\<lparr>reporter := Some (increment Ch_features_masks 100 pr)\<rparr> else s)"

text \<open>The loop over \<^verbatim>\<open>enumerate(spikes)\<close>.\<close>

fun spikes_loop ::
  "kwik_model \<Rightarrow> to_store \<Rightarrow> nat \<Rightarrow> nat list \<Rightarrow> pass_vars \<Rightarrow> store_state
     \<Rightarrow> (error + pass_vars) \<times> store_state" where
  "spikes_loop m ts iteration [] v s = (Inr v, s)"
| "spikes_loop m ts iteration (spike # rest) v s =
     (if length (spike_clusters m) \<le> spike then (Inl IndexError, s)
      else case store_fields m ts spike (spike_clusters m ! spike) names v s of
             (Inl e, s1) \<Rightarrow> (Inl e, s1)
           | (Inr v1, s1) \<Rightarrow>
               spikes_loop m ts (iteration + 1) rest v1 (report_spike iteration s1))"

definition report_cluster :: "store_state \<Rightarrow> store_state" where
  "report_cluster s =
     (case reporter s of
        None \<Rightarrow> s
      | Some pr \<Rightarrow> s\<lparr>reporter := Some (increment Ch_masks_extra 1 pr)\<rparr>)"

text \<open>The loop that stores the extra fields of every cluster.\<close>

fun extra_loop :: "kwik_model \<Rightarrow> int list \<Rightarrow> store_state \<Rightarrow> (error + unit) \<times> store_state" where
  "extra_loop m [] s = (Inr (), s)"
| "extra_loop m (cluster # rest) s =
     (case store_extra_fields m cluster (disk s (cluster, Features)) (disk s (cluster, Masks)) s of
        (Inl e, s1) \<Rightarrow> (Inl e, s1)
      | (Inr u, s1) \<Rightarrow> extra_loop m rest (report_cluster s1))"

text \<open>
  The closing loops: for each name, every handle of \<^verbatim>\<open>files[name]\<close> is closed.
\<close>

definition close_all :: "(field \<times> int) list \<Rightarrow> store_state \<Rightarrow> store_state" where
  "close_all files s =
     fold (\<lambda>name s1. fold (\<lambda>h s2. s2\<lparr>open_files := open_files s2 - {#h#}\<rparr>)
                           [h \<leftarrow> files. fst h = name] s1)
          names s"

text \<open>The clusters that need to be stored for either \<^verbatim>\<open>masks\<close> or \<^verbatim>\<open>features\<close>.\<close>

definition clusters_needed :: "to_store \<Rightarrow> int list" where
  "clusters_needed ts =
     [cluster \<leftarrow> sort (map fst ts).
        case map_of ts cluster of
          None \<Rightarrow> False
        | Some fl \<Rightarrow> flag Masks fl \<or> flag Features fl]"

definition report_max :: "nat \<Rightarrow> nat \<Rightarrow> store_state \<Rightarrow> store_state" where
  "report_max n_spikes n_clusters s =
     (case reporter s of
        None \<Rightarrow> s
      | Some pr \<Rightarrow> s\<lparr>reporter := Some (set_max n_spikes n_clusters pr)\<rparr>)"

text \<open>
  \<^verbatim>\<open>store_all_clusters(spikes_per_cluster)\<close>, with \<open>spc\<close> for the argument: the files are prepared, the spikes of
  the clusters to store are copied, the extra fields are stored, and the files that
  were opened are closed. An exception leaves the function at once.
\<close>

definition store_all_clusters ::
  "kwik_model \<Rightarrow> (int, nat list) dict \<Rightarrow> store_state \<Rightarrow> (error + unit) \<times> store_state" where
  "store_all_clusters m spc s =
     (case clusters_to_store m spc s of
        (Inl e, s1) \<Rightarrow> (Inl e, s1)
      | (Inr ts, s1) \<Rightarrow>
          (let n_clusters = length spc;
               clusters = clusters_needed ts;
               spikes = spikes_in_clusters (spike_clusters m) clusters;
               n_spikes = length spikes;
               s2 = report_max n_spikes n_clusters s1
           in case spikes_loop m ts 0 spikes ([], \<lambda>k. 0) s2 of
                (Inl e, s3) \<Rightarrow> (Inl e, s3)
              | (Inr v, s3) \<Rightarrow>
                  (case extra_loop m (sort (map fst spc)) s3 of
                     (Inl e, s4) \<Rightarrow> (Inl e, s4)
                   | (Inr u, s4) \<Rightarrow> (Inr (), close_all (fst v) s4))))"

text \<open>The state without its progress reporter, to compare two runs.\<close>

definition forget_reporter :: "store_state \<Rightarrow> store_state" where
  "forget_reporter s = s\<lparr>reporter := None\<rparr>"

text \<open>
  The spikes of the model that belong to a cluster, in ascending order: element \<open>i\<close>
  is the \<open>(i+1)\<close>-th smallest spike id of the cluster.
\<close>

definition spikes_of_cluster :: "kwik_model \<Rightarrow> int \<Rightarrow> nat list" where
  "spikes_of_cluster m c = [j \<leftarrow> [0..<length (spike_clusters m)]. spike_clusters m ! j = c]"

text \<open>
  Every entry marked in \<^verbatim>\<open>to_store\<close> exists and has a shape that \<^verbatim>\<open>_prepare_file\<close>
  was given for its field.
\<close>

definition shaped :: "kwik_model \<Rightarrow> to_store \<Rightarrow> store_state \<Rightarrow> bool" where
  "shaped m ts s = (\<forall>c fl name. map_of ts c = Some fl \<and> flag name fl \<longrightarrow>
     (\<exists>arr n. disk s (c, name) = Some arr \<and> shape arr = expected_shape m name n))"

text \<open>
  The invariant of the loop over the spikes, for one field and one cluster: the cursor
  is the number of spikes of the cluster seen so far, and row \<open>i\<close> of the stored array
  holds the data of the \<open>i\<close>-th of them.
\<close>

definition written_at ::
  "kwik_model \<Rightarrow> field \<Rightarrow> int \<Rightarrow> nat list \<Rightarrow> pass_vars \<Rightarrow> store_state \<Rightarrow> bool" where
  "written_at m name c K v s =
     (snd v (name, c) = length K \<and>
      (\<exists>arr n. disk s (c, name) = Some arr \<and> shape arr = expected_shape m name n \<and>
         (\<forall>i < length K. i < length (rows arr) \<and>
            (\<exists>shp. data m name (K ! i) = Inr (shp, rows arr ! i)))))"

definition written ::
  "kwik_model \<Rightarrow> to_store \<Rightarrow> field \<Rightarrow> nat list \<Rightarrow> pass_vars \<Rightarrow> store_state \<Rightarrow> bool" where
  "written m ts name P v s = (\<forall>c fl. map_of ts c = Some fl \<and> flag name fl \<longrightarrow>
     written_at m name c [j \<leftarrow> P. spike_clusters m ! j = c] v s)"

text \<open>
  Three spikes, the first and the third in cluster 5 and the second in cluster 2.
\<close>

definition two_cluster_model :: kwik_model where
  "two_cluster_model = \<lparr>spike_clusters = [5, 2, 5],
     features_masks = [[(1, 1 / 4), (2, 1)], [(3, 1), (4, 0)], [(5, 1 / 2), (6, 1)]],
     nfeatures_per_channel = 1, n_channels = 2, positions = [[0, 0], [0, 2]],
     positions_ndim = 2\<rparr>"

subsection \<open>What the specification says of the extra fields\<close>

text \<open>
  The specification's words for \<^verbatim>\<open>main_channels\<close>: the unmasked channels, ordered by
  descending mean mask.
\<close>

definition main_channels_spec :: "float list \<Rightarrow> nat list" where
  "main_channels_spec mm = [c \<leftarrow> rev (argsort_float mm). fgt (mm ! c) (1 / 1000)]"

text \<open>
  The specification's words for \<^verbatim>\<open>mean_probe_position\<close>: the sum over the channels of
  the mean mask times the position, divided by the sum of the mean masks.
\<close>

definition weighted_centroid_spec :: "nat \<Rightarrow> real list list \<Rightarrow> real list \<Rightarrow> real list" where
  "weighted_centroid_spec d pos w =
     map (\<lambda>j. sum_list (map2 (\<lambda>p wc. wc * p ! j) pos w) / sum_list w) [0..<d]"

subsection \<open>Concrete models and stores\<close>

text \<open>
  One spike in cluster 0, two channels with one feature each, masks \<open>1/4\<close> and \<open>1\<close>,
  channel positions \<open>(0, 0)\<close> and \<open>(0, 3)\<close>.
\<close>

definition probe_model :: kwik_model where
  "probe_model = \<lparr>spike_clusters = [0], features_masks = [[(0, 1 / 4), (0, 1)]],
     nfeatures_per_channel = 1, n_channels = 2, positions = [[0, 0], [0, 3]],
     positions_ndim = 2\<rparr>"

definition empty_state :: store_state where
  "empty_state = \<lparr>disk = Map.empty, memory = Map.empty, open_files = {#}, warnings = [],
     reporter = None\<rparr>"

text \<open>
  Two spikes in cluster 0, for a pass that is given \<^verbatim>\<open>spikes_per_cluster = {0: [0]}\<close>,
  which lists only the first.
\<close>

definition stale_model :: kwik_model where
  "stale_model = \<lparr>spike_clusters = [0, 0],
     features_masks = [[(0, 1 / 4), (0, 1)], [(0, 1), (0, 1 / 2)]],
     nfeatures_per_channel = 1, n_channels = 2, positions = [[0, 0], [0, 3]],
     positions_ndim = 2\<rparr>"

text \<open>
  A store with a masks array of the expected shape whose first and last rows are zero
  and whose middle row is not, and one whose first row is not zero.
\<close>

definition corrupt_masks :: ndarray where
  "corrupt_masks = \<lparr>shape = [3, 1], rows = [[0], [5], [0]]\<rparr>"

definition corrupt_state :: store_state where
  "corrupt_state = \<lparr>disk = Map.empty((0, Masks) \<mapsto> corrupt_masks), memory = Map.empty,
     open_files = {#}, warnings = [], reporter = None\<rparr>"

definition good_masks :: ndarray where
  "good_masks = \<lparr>shape = [3, 1], rows = [[1], [5], [0]]\<rparr>"

definition good_state :: store_state where
  "good_state = \<lparr>disk = Map.empty((0, Masks) \<mapsto> good_masks), memory = Map.empty,
     open_files = {#}, warnings = [], reporter = None\<rparr>"

section \<open>Properties of \<^verbatim>\<open>_process_ups\<close>\<close>

lemma process_ups_many:
  "2 < length ups \<Longrightarrow> process_ups ups = Inl NotImplementedError"
  by (cases ups rule: process_ups.cases) simp_all

text \<open>
  C10. \<^verbatim>\<open>_process_ups\<close> returns \<^verbatim>\<open>None\<close> for the empty list, returns the single
  record unchanged for a list of one record, and raises \<^verbatim>\<open>NotImplementedError\<close>
  for every list of more than two records.
\<close>

theorem process_ups_cases:
  "process_ups [] = Inr None
   \<and> process_ups [up] = Inr (Some up)
   \<and> (2 < length ups \<longrightarrow> process_ups ups = Inl NotImplementedError)"
  by (simp add: process_ups_many)

theorem process_ups_cases_witness:
  "process_ups [] = Inr None
   \<and> process_ups [up_merge] = Inr (Some up_merge)
   \<and> 2 < length [up_merge, up_metadata, up_merge]
   \<and> process_ups [up_merge, up_metadata, up_merge] = Inl NotImplementedError"
  using process_ups_cases [of up_merge "[up_merge, up_metadata, up_merge]"] by simp

text \<open>
  C7. The claim is that the record combined from a partition record and a metadata
  record keeps the first record's \<^verbatim>\<open>added\<close>, \<^verbatim>\<open>deleted\<close>, \<^verbatim>\<open>descendants\<close> and
  \<^verbatim>\<open>spikes\<close>. The code does not: the second record carries all ten keys, so
  \<^verbatim>\<open>ups[0].update(ups[1])\<close> overwrites those four fields with the second record's
  empty defaults. Here the merge record has \<^verbatim>\<open>added = [3]\<close> and the combined record
  has \<^verbatim>\<open>added = []\<close>; the metadata fields are those of the second record.
\<close>

theorem process_ups_two_overwrites:
  "\<exists>up. process_ups [up_merge, up_metadata] = Inr (Some up)
      \<and> map_of up_merge ''added'' = Some (PList [3])
      \<and> map_of up ''added'' = Some (PList [])
      \<and> map_of up ''deleted'' = Some (PList [])
      \<and> map_of up ''descendants'' = Some (PPairs [])
      \<and> map_of up ''spikes'' = Some (PList [])
      \<and> map_of up ''metadata_changed'' = Some (PList [3])
      \<and> map_of up ''metadata_value'' = Some (PInt 2)"
  by (simp add: up_merge_def up_metadata_def update_info_def update_info_defaults_def
      dict_update_def)

section \<open>Properties of \<^verbatim>\<open>_prepare_file\<close>\<close>

text \<open>
  C3, as stated, fails: an entry of the expected shape whose first and last rows are
  all zero is not left as it is. The code warns and then recreates the entry, since
  only the other branch returns \<^verbatim>\<open>False\<close>: here the middle row \<open>5\<close> is
  overwritten with zeros and the call returns \<^verbatim>\<open>True\<close>.
\<close>

theorem prepare_file_probe_counterexample:
  "disk corrupt_state (0, Masks) = Some corrupt_masks
   \<and> shape corrupt_masks = [3, 1]
   \<and> fst (prepare_file Masks 0 [3, 1] corrupt_state) = Inr True
   \<and> fst (prepare_file Masks 0 [3, 1] corrupt_state) \<noteq> Inr False
   \<and> disk (snd (prepare_file Masks 0 [3, 1] corrupt_state)) (0, Masks)
       = Some \<lparr>shape = [3, 1], rows = [[0], [0], [0]]\<rparr>
   \<and> disk (snd (prepare_file Masks 0 [3, 1] corrupt_state)) (0, Masks)
       \<noteq> disk corrupt_state (0, Masks)"
  by (simp add: corrupt_state_def corrupt_masks_def prepare_file_def recreate_def all_zero_def
      np_zeros_def numeral_3_eq_3)

text \<open>
  C3, amended. When an entry of the expected shape exists and has at least one row:
  if its first or its last row has a non-zero element, the call returns \<^verbatim>\<open>False\<close>
  and changes nothing; if both rows are all zero, a warning is logged, the entry is
  recreated as a zero array of the expected shape, and the call returns \<^verbatim>\<open>True\<close>.
\<close>

theorem prepare_file_existing:
  assumes "disk s (cluster, name) = Some arr" and "shape arr = shp" and "rows arr \<noteq> []"
  shows "(\<not> (all_zero (hd (rows arr)) \<and> all_zero (last (rows arr)))
            \<longrightarrow> prepare_file name cluster shp s = (Inr False, s))
       \<and> (all_zero (hd (rows arr)) \<and> all_zero (last (rows arr))
            \<longrightarrow> prepare_file name cluster shp s
                  = (Inr True, s\<lparr>warnings := warnings s @ [(name, cluster)],
                                  disk := (disk s)((cluster, name) \<mapsto> np_zeros shp)\<rparr>))"
  using assms by (simp add: prepare_file_def recreate_def)

theorem prepare_file_existing_witness:
  "prepare_file Masks 0 [3, 1] good_state = (Inr False, good_state)
   \<and> prepare_file Masks 0 [3, 1] corrupt_state
       = (Inr True, corrupt_state\<lparr>warnings := [(Masks, 0)],
                      disk := (disk corrupt_state)((0, Masks) \<mapsto> np_zeros [3, 1])\<rparr>)"
proof -
  have g: "disk good_state (0, Masks) = Some good_masks" "shape good_masks = [3, 1]"
      "rows good_masks \<noteq> []"
      "\<not> (all_zero (hd (rows good_masks)) \<and> all_zero (last (rows good_masks)))"
    by (simp_all add: good_state_def good_masks_def all_zero_def)
  have c: "disk corrupt_state (0, Masks) = Some corrupt_masks" "shape corrupt_masks = [3, 1]"
      "rows corrupt_masks \<noteq> []"
      "all_zero (hd (rows corrupt_masks)) \<and> all_zero (last (rows corrupt_masks))"
      "warnings corrupt_state = []"
    by (simp_all add: corrupt_state_def corrupt_masks_def all_zero_def)
  show ?thesis
    using prepare_file_existing [OF g(1-3)] prepare_file_existing [OF c(1-3)] g(4) c(4,5)
    by simp
qed

section \<open>Properties of \<^verbatim>\<open>_store_extra_fields\<close>\<close>

lemma set_argsort_float: "set (argsort_float xs) = {0..<length xs}"
proof -
  let ?z = "zip xs [0..<length xs]"
  have "set (argsort_float xs)
        = snd ` {p \<in> set ?z. fst p \<noteq> None} \<union> snd ` {p \<in> set ?z. fst p = None}"
    unfolding argsort_float_def by (auto simp: image_iff split: option.splits) force+
  also have "\<dots> = snd ` set ?z"
  proof -
    have "\<And>S :: (float \<times> nat) set. S = {p \<in> S. fst p \<noteq> None} \<union> {p \<in> S. fst p = None}"
      by auto
    then show ?thesis by (metis image_Un)
  qed
  also have "\<dots> = {0..<length xs}"
    by (metis atLeastLessThan_upt length_upt map_snd_zip minus_nat.diff_0 set_map)
  finally show ?thesis .
qed

lemma intersect1d_perm:
  assumes "set u \<subseteq> set p" and "sorted u" and "distinct u"
  shows "intersect1d p u = u"
proof -
  have "set (remdups [x \<leftarrow> p. x \<in> set u]) = set u" using assms by auto
  then have "mset (remdups [x \<leftarrow> p. x \<in> set u]) = mset u"
    using assms(3) by (metis distinct_remdups set_eq_iff_mset_eq_distinct)
  then show ?thesis unfolding intersect1d_def using assms(2)
    by (metis properties_for_sort)
qed

text \<open>
  Whatever the masks are, \<^verbatim>\<open>np.intersect1d\<close> sorts its result: the stored
  \<^verbatim>\<open>main_channels\<close> are the unmasked channels in ascending order of channel index.
\<close>

lemma main_channels_eq_unmasked:
  assumes "extra_fields_of m a = Inr x"
  shows "main_channels x
         = [j \<leftarrow> [0..<length (mean_masks x)]. fgt (mean_masks x ! j) (1 / 1000)]"
proof -
  let ?mm = "mean_masks x"
  let ?u = "[j \<leftarrow> [0..<length ?mm]. fgt (?mm ! j) (1 / 1000)]"
  have "main_channels x = intersect1d (rev (argsort_float ?mm)) ?u"
    using assms by (auto simp: extra_fields_of_def Let_def split: sum.splits)
  moreover have "intersect1d (rev (argsort_float ?mm)) ?u = ?u"
    by (rule intersect1d_perm) (auto simp: set_argsort_float sorted_wrt_filter)
  ultimately show ?thesis by simp
qed

lemmas pass_simps =
  store_all_clusters_def clusters_to_store_def prepare_file_def recreate_def
  expected_shape_def np_zeros_def flag_def spikes_in_clusters_def names_def store_field_def
  data_def arr_open_def assign_row_def report_spike_def report_cluster_def
  store_extra_fields_def close_all_def clusters_needed_def report_max_def

lemmas extra_simps =
  extra_fields_of_def weighted_positions_def mean_axis0_def fdiv_def fmul_def fsum_def
  fgt_def intersect1d_def argsort_float_def

text \<open>
  C5. The claim is that the stored \<^verbatim>\<open>main_channels\<close> are the unmasked channels in
  descending order of mean mask. The code sorts the channels by descending mean mask
  and then passes them through \<^verbatim>\<open>np.intersect1d\<close>, which returns them in ascending
  order of channel index. For one spike with masks \<open>1/4\<close> and \<open>1\<close> the pass stores
  \<open>[0, 1]\<close>, and the descending order of mean mask is \<open>[1, 0]\<close>.
\<close>

theorem main_channels_ascending:
  "\<exists>x. fst (store_all_clusters probe_model [(0, [0])] empty_state) = Inr ()
      \<and> memory (snd (store_all_clusters probe_model [(0, [0])] empty_state)) 0 = Some x
      \<and> mean_masks x = [Some (1 / 4), Some 1]
      \<and> main_channels x = [0, 1]
      \<and> main_channels_spec (mean_masks x) = [1, 0]"
  by (simp add: probe_model_def empty_state_def pass_simps extra_simps main_channels_spec_def
      Let_def numeral_2_eq_2)

text \<open>
  C6. The claim is that the stored \<^verbatim>\<open>mean_probe_position\<close> is the sum of the
  mask-weighted positions divided by the sum of the mean masks. The code takes
  \<^verbatim>\<open>.mean(axis=0)\<close> of the weighted positions, which divides by the number of
  channels. For mean masks \<open>1/4\<close> and \<open>1\<close> and positions \<open>(0, 0)\<close> and \<open>(0, 3)\<close> the
  pass stores \<open>(0, 3/2)\<close>, and the weighted centroid is \<open>(0, 12/5)\<close>.
\<close>

theorem mean_probe_position_unnormalised:
  "\<exists>x. fst (store_all_clusters probe_model [(0, [0])] empty_state) = Inr ()
      \<and> memory (snd (store_all_clusters probe_model [(0, [0])] empty_state)) 0 = Some x
      \<and> mean_masks x = [Some (1 / 4), Some 1]
      \<and> mean_probe_position x = [Some 0, Some (3 / 2)]
      \<and> weighted_centroid_spec 2 (positions probe_model) [1 / 4, 1] = [0, 12 / 5]"
  by (simp add: probe_model_def empty_state_def pass_simps extra_simps
      weighted_centroid_spec_def Let_def numeral_2_eq_2)

section \<open>The progress reporter does not change what is stored\<close>

text \<open>
  Every step of the pass commutes with forgetting the progress reporter: the reporter
  is only read to update the reporter.
\<close>

lemma forget_simps [simp]:
  "disk (forget_reporter s) = disk s"
  "memory (forget_reporter s) = memory s"
  "open_files (forget_reporter s) = open_files s"
  "warnings (forget_reporter s) = warnings s"
  "reporter (forget_reporter s) = None"
  by (simp_all add: forget_reporter_def)

lemma prepare_file_forget:
  "prepare_file name c shp (forget_reporter s) = apsnd forget_reporter (prepare_file name c shp s)"
  by (simp add: prepare_file_def recreate_def forget_reporter_def split: option.splits)

lemma clusters_to_store_loop_forget:
  "clusters_to_store_loop m xs ts (forget_reporter s)
   = apsnd forget_reporter (clusters_to_store_loop m xs ts s)"
proof (induction xs arbitrary: ts s)
  case Nil
  show ?case by simp
next
  case (Cons x xs)
  obtain c n where x: "x = (c, n)" by (cases x)
  show ?case
    by (simp add: x prepare_file_forget Cons.IH split: prod.splits sum.splits)
qed

lemma store_field_forget:
  "store_field m ts spike c name v (forget_reporter s)
   = apsnd forget_reporter (store_field m ts spike c name v s)"
  by (simp add: store_field_def arr_open_def forget_reporter_def Let_def
      split: option.splits sum.splits prod.splits)

lemma store_fields_forget:
  "store_fields m ts spike c ns v (forget_reporter s)
   = apsnd forget_reporter (store_fields m ts spike c ns v s)"
  by (induction ns arbitrary: v s) (simp_all add: store_field_forget split: prod.splits sum.splits)

lemma report_spike_forget:
  "report_spike it (forget_reporter s) = forget_reporter s"
  "forget_reporter (report_spike it s) = forget_reporter s"
  by (simp_all add: report_spike_def forget_reporter_def split: option.splits)

lemma report_cluster_forget:
  "report_cluster (forget_reporter s) = forget_reporter s"
  "forget_reporter (report_cluster s) = forget_reporter s"
  by (simp_all add: report_cluster_def forget_reporter_def split: option.splits)

lemma spikes_loop_forget:
  "spikes_loop m ts it xs v (forget_reporter s)
   = apsnd forget_reporter (spikes_loop m ts it xs v s)"
proof (induction xs arbitrary: it v s)
  case Nil
  show ?case by simp
next
  case (Cons x xs)
  have "spikes_loop m ts (it + 1) xs v1 (forget_reporter s1)
        = apsnd forget_reporter (spikes_loop m ts (it + 1) xs v1 (report_spike it s1))" for v1 s1
    using Cons.IH [of "it + 1" v1 "report_spike it s1"] by (simp add: report_spike_forget)
  then show ?case
    by (simp add: store_fields_forget report_spike_forget split: prod.splits sum.splits)
qed

lemma store_extra_fields_forget:
  "store_extra_fields m c f a (forget_reporter s)
   = apsnd forget_reporter (store_extra_fields m c f a s)"
  by (simp add: store_extra_fields_def forget_reporter_def split: option.splits sum.splits)

lemma extra_loop_forget:
  "extra_loop m cs (forget_reporter s) = apsnd forget_reporter (extra_loop m cs s)"
proof (induction cs arbitrary: s)
  case Nil
  show ?case by simp
next
  case (Cons c cs)
  have "extra_loop m cs (forget_reporter s1)
        = apsnd forget_reporter (extra_loop m cs (report_cluster s1))" for s1
    using Cons.IH [of "report_cluster s1"] by (simp add: report_cluster_forget)
  then show ?case
    by (simp add: store_extra_fields_forget report_cluster_forget split: prod.splits sum.splits)
qed

lemma forget_open_files:
  "(forget_reporter s)\<lparr>open_files := x\<rparr> = forget_reporter (s\<lparr>open_files := x\<rparr>)"
  by (simp add: forget_reporter_def)

lemma close_all_forget:
  "close_all files (forget_reporter s) = forget_reporter (close_all files s)"
proof -
  have "fold (\<lambda>h s2. s2\<lparr>open_files := open_files s2 - {#h#}\<rparr>) hs (forget_reporter s)
        = forget_reporter (fold (\<lambda>h s2. s2\<lparr>open_files := open_files s2 - {#h#}\<rparr>) hs s)" for hs s
    by (induction hs arbitrary: s) (simp_all add: forget_open_files)
  then show ?thesis by (simp add: close_all_def names_def)
qed

lemma report_max_forget:
  "report_max a b (forget_reporter s) = forget_reporter s"
  "forget_reporter (report_max a b s) = forget_reporter s"
  by (simp_all add: report_max_def forget_reporter_def split: option.splits)

lemma store_all_clusters_forget:
  "store_all_clusters m spc (forget_reporter s)
   = apsnd forget_reporter (store_all_clusters m spc s)"
proof -
  obtain r1 s1 where a: "clusters_to_store m spc s = (r1, s1)" by fastforce
  then have a': "clusters_to_store m spc (forget_reporter s) = (r1, forget_reporter s1)"
    by (simp add: clusters_to_store_def clusters_to_store_loop_forget)
  show ?thesis
  proof (cases r1)
    case (Inl e)
    then show ?thesis using a a' by (simp add: store_all_clusters_def)
  next
    case (Inr ts)
    define spikes where "spikes = spikes_in_clusters (spike_clusters m) (clusters_needed ts)"
    define s2 where "s2 = report_max (length spikes) (length spc) s1"
    obtain r3 s3 where b: "spikes_loop m ts 0 spikes ([], \<lambda>k. 0) s2 = (r3, s3)" by fastforce
    have "spikes_loop m ts 0 spikes ([], \<lambda>k. 0) (forget_reporter s2) = (r3, forget_reporter s3)"
      by (simp add: spikes_loop_forget b)
    then have b': "spikes_loop m ts 0 spikes ([], \<lambda>k. 0)
                     (report_max (length spikes) (length spc) (forget_reporter s1))
                   = (r3, forget_reporter s3)"
      by (simp add: s2_def report_max_forget)
    show ?thesis
    proof (cases r3)
      case (Inl e)
      then show ?thesis
        using a a' Inr b b' by (simp add: store_all_clusters_def spikes_def s2_def)
    next
      case v: (Inr v)
      obtain r4 s4 where c: "extra_loop m (sort (map fst spc)) s3 = (r4, s4)" by fastforce
      then have c': "extra_loop m (sort (map fst spc)) (forget_reporter s3)
                     = (r4, forget_reporter s4)"
        by (simp add: extra_loop_forget)
      show ?thesis
        using a a' Inr b b' v c c'
        by (cases r4) (simp_all add: store_all_clusters_def spikes_def s2_def close_all_forget)
    qed
  qed
qed

text \<open>
  C9. A run of \<^verbatim>\<open>store_all_clusters\<close> with a progress reporter attached and a run
  without one, from the same model, stores and \<^verbatim>\<open>spikes_per_cluster\<close>, end with the
  same result (normal return or the same exception), the same disk store and the same
  memory store.
\<close>

theorem store_all_clusters_reporter_independent:
  "fst (store_all_clusters m spc (s\<lparr>reporter := Some pr\<rparr>))
     = fst (store_all_clusters m spc (s\<lparr>reporter := None\<rparr>))
   \<and> disk (snd (store_all_clusters m spc (s\<lparr>reporter := Some pr\<rparr>)))
     = disk (snd (store_all_clusters m spc (s\<lparr>reporter := None\<rparr>)))
   \<and> memory (snd (store_all_clusters m spc (s\<lparr>reporter := Some pr\<rparr>)))
     = memory (snd (store_all_clusters m spc (s\<lparr>reporter := None\<rparr>)))"
proof -
  have e: "forget_reporter (s\<lparr>reporter := Some pr\<rparr>) = forget_reporter (s\<lparr>reporter := None\<rparr>)"
    by (simp add: forget_reporter_def)
  have "apsnd forget_reporter (store_all_clusters m spc (s\<lparr>reporter := Some pr\<rparr>))
        = apsnd forget_reporter (store_all_clusters m spc (s\<lparr>reporter := None\<rparr>))"
    using store_all_clusters_forget [of m spc "s\<lparr>reporter := Some pr\<rparr>"]
      store_all_clusters_forget [of m spc "s\<lparr>reporter := None\<rparr>"] e by simp
  then have "fst (store_all_clusters m spc (s\<lparr>reporter := Some pr\<rparr>))
             = fst (store_all_clusters m spc (s\<lparr>reporter := None\<rparr>))"
    and "forget_reporter (snd (store_all_clusters m spc (s\<lparr>reporter := Some pr\<rparr>)))
         = forget_reporter (snd (store_all_clusters m spc (s\<lparr>reporter := None\<rparr>)))"
    by (metis fst_apsnd, metis snd_apsnd)
  then show ?thesis by (metis forget_simps(1,2))
qed

section \<open>The file handles of a pass\<close>

lemma prepare_file_open_files:
  "open_files (snd (prepare_file name c shp s)) = open_files s"
  by (simp add: prepare_file_def recreate_def split: option.splits)

lemma clusters_to_store_loop_open_files:
  "open_files (snd (clusters_to_store_loop m xs ts s)) = open_files s"
proof (induction xs arbitrary: ts s)
  case Nil
  show ?case by simp
next
  case (Cons x xs)
  obtain c n where x: "x = (c, n)" by (cases x)
  show ?case
    using prepare_file_open_files [of Masks c "expected_shape m Masks n" s]
    by (auto simp: x Cons.IH split: prod.splits sum.splits)
      (metis prepare_file_open_files snd_conv)+
qed

lemma store_field_open_files:
  assumes "store_field m ts spike c name v s = (Inr v', s')"
      and "open_files s = base + mset (fst v)"
  shows "open_files s' = base + mset (fst v')"
  using assms
  by (auto simp: store_field_def arr_open_def Let_def
      split: option.splits sum.splits if_splits prod.splits)

lemma store_fields_open_files:
  assumes "store_fields m ts spike c ns v s = (Inr v', s')"
      and "open_files s = base + mset (fst v)"
  shows "open_files s' = base + mset (fst v')"
  using assms
proof (induction ns arbitrary: v s)
  case Nil
  then show ?case by simp
next
  case (Cons n ns)
  then show ?case
    by (auto split: prod.splits sum.splits dest: store_field_open_files)
qed

lemma report_spike_open_files [simp]: "open_files (report_spike it s) = open_files s"
  by (simp add: report_spike_def split: option.splits)

lemma report_cluster_open_files [simp]: "open_files (report_cluster s) = open_files s"
  by (simp add: report_cluster_def split: option.splits)

lemma report_max_open_files [simp]: "open_files (report_max a b s) = open_files s"
  by (simp add: report_max_def split: option.splits)

lemma spikes_loop_open_files:
  assumes "spikes_loop m ts it xs v s = (Inr v', s')"
      and "open_files s = base + mset (fst v)"
  shows "open_files s' = base + mset (fst v')"
  using assms
proof (induction xs arbitrary: it v s)
  case Nil
  then show ?case by simp
next
  case (Cons x xs)
  from Cons.prems(1) obtain v1 s1 where
    a: "store_fields m ts x (spike_clusters m ! x) names v s = (Inr v1, s1)" and
    b: "spikes_loop m ts (it + 1) xs v1 (report_spike it s1) = (Inr v', s')"
    by (auto split: if_splits prod.splits sum.splits)
  have "open_files s1 = base + mset (fst v1)"
    using store_fields_open_files [OF a Cons.prems(2)] .
  then show ?case using Cons.IH [OF b] by simp
qed

lemma store_extra_fields_open_files:
  "open_files (snd (store_extra_fields m c f a s)) = open_files s"
  by (simp add: store_extra_fields_def split: option.splits sum.splits)

lemma extra_loop_open_files:
  "open_files (snd (extra_loop m cs s)) = open_files s"
proof (induction cs arbitrary: s)
  case Nil
  show ?case by simp
next
  case (Cons c cs)
  show ?case
    using store_extra_fields_open_files [of m c "disk s (c, Features)" "disk s (c, Masks)" s]
    by (auto simp: Cons.IH split: prod.splits sum.splits)
qed

lemma fold_close_open_files:
  "open_files (fold (\<lambda>h s2. s2\<lparr>open_files := open_files s2 - {#h#}\<rparr>) hs s)
   = open_files s - mset hs"
  by (induction hs arbitrary: s) simp_all

lemma close_all_open_files:
  "open_files (close_all files s) = open_files s - mset files"
proof -
  have f: "(\<lambda>h. fst h = Features) = (\<lambda>h. \<not> fst h = Masks)" for h :: "field \<times> int"
    by (auto intro: field.exhaust)
  have "mset [h \<leftarrow> files. fst h = Masks] + mset [h \<leftarrow> files. fst h = Features] = mset files"
    unfolding f by simp
  then show ?thesis
    by (simp add: close_all_def names_def fold_close_open_files diff_diff_add_mset)
qed

text \<open>
  C8, amended. When \<^verbatim>\<open>store_all_clusters\<close> returns normally, every handle that the
  pass opened has been closed: the handles open after the call are those that were open
  before it.
\<close>

theorem store_all_clusters_closes_files:
  assumes "store_all_clusters m spc s = (Inr (), s')"
  shows "open_files s' = open_files s"
proof -
  obtain ts s1 where a: "clusters_to_store m spc s = (Inr ts, s1)"
    using assms by (auto simp: store_all_clusters_def split: prod.splits sum.splits)
  define spikes where "spikes = spikes_in_clusters (spike_clusters m) (clusters_needed ts)"
  define s2 where "s2 = report_max (length spikes) (length spc) s1"
  obtain v s3 where b: "spikes_loop m ts 0 spikes ([], \<lambda>k. 0) s2 = (Inr v, s3)"
    using assms a
    by (auto simp: store_all_clusters_def Let_def spikes_def s2_def split: prod.splits sum.splits)
  obtain s4 where c: "extra_loop m (sort (map fst spc)) s3 = (Inr (), s4)"
    and d: "s' = close_all (fst v) s4"
    using assms a b
    by (auto simp: store_all_clusters_def Let_def spikes_def s2_def split: prod.splits sum.splits)
  have "open_files s1 = open_files s"
    using clusters_to_store_loop_open_files a by (metis clusters_to_store_def snd_conv)
  then have "open_files s2 = open_files s + mset (fst (([], \<lambda>k. 0) :: pass_vars))"
    by (simp add: s2_def)
  then have "open_files s3 = open_files s + mset (fst v)"
    by (rule spikes_loop_open_files [OF b])
  moreover have "open_files s4 = open_files s3"
    using extra_loop_open_files [of m "sort (map fst spc)" s3] c by simp
  ultimately show ?thesis by (simp add: d close_all_open_files)
qed

theorem store_all_clusters_closes_files_witness:
  "store_all_clusters probe_model [(0, [0])] empty_state
     = (Inr (), snd (store_all_clusters probe_model [(0, [0])] empty_state))
   \<and> open_files (snd (store_all_clusters probe_model [(0, [0])] empty_state)) = {#}"
proof -
  have r: "fst (store_all_clusters probe_model [(0, [0])] empty_state) = Inr ()"
    by (simp add: probe_model_def empty_state_def pass_simps extra_simps Let_def numeral_2_eq_2)
  then have e: "store_all_clusters probe_model [(0, [0])] empty_state
     = (Inr (), snd (store_all_clusters probe_model [(0, [0])] empty_state))"
    by (metis prod.collapse)
  show ?thesis
    using store_all_clusters_closes_files [OF e] e by (simp add: empty_state_def)
qed

text \<open>
  C8, as stated, fails on the exit by an exception: the handles are closed by the last
  statements of the function, outside any \<^verbatim>\<open>try\<close>, so an exception raised in one of
  the loops leaves them open. Here the model has two spikes in cluster 0 and
  \<^verbatim>\<open>spikes_per_cluster\<close> lists one: the array has one row, the write of the second
  spike raises \<^verbatim>\<open>IndexError\<close>, and the two handles of cluster 0 stay open.
\<close>

theorem store_all_clusters_leak_counterexample:
  "fst (store_all_clusters stale_model [(0, [0])] empty_state) = Inl IndexError
   \<and> open_files empty_state = {#}
   \<and> open_files (snd (store_all_clusters stale_model [(0, [0])] empty_state))
       = {#(Masks, 0), (Features, 0)#}
   \<and> open_files (snd (store_all_clusters stale_model [(0, [0])] empty_state))
       \<noteq> open_files empty_state"
  by (simp add: stale_model_def empty_state_def pass_simps Let_def)

section \<open>The rows written by \<^verbatim>\<open>store_all_clusters\<close>\<close>

subsection \<open>The entries marked by \<^verbatim>\<open>_clusters_to_store\<close>\<close>

lemma prepare_file_disk:
  assumes "prepare_file name c shp s = (r, s')"
  shows "(disk s' k = disk s k \<or> (k = (c, name) \<and> disk s' k = Some (np_zeros shp)))
       \<and> (r = Inr True \<longrightarrow> disk s' (c, name) = Some (np_zeros shp))"
  using assms
  by (auto simp: prepare_file_def recreate_def split: option.splits if_splits)

lemma shape_np_zeros [simp]: "shape (np_zeros shp) = shp"
  by (simp add: np_zeros_def)

lemma clusters_to_store_loop_shaped:
  assumes "clusters_to_store_loop m xs ts s = (Inr ts', s')" and "shaped m ts s"
  shows "shaped m ts' s'"
  using assms
proof (induction xs arbitrary: ts s)
  case Nil
  then show ?case by simp
next
  case (Cons x xs)
  obtain c n where x: "x = (c, n)" by (cases x)
  from Cons.prems(1) obtain fm s1 ff s2 where
    a: "prepare_file Masks c (expected_shape m Masks n) s = (Inr fm, s1)" and
    b: "prepare_file Features c (expected_shape m Features n) s1 = (Inr ff, s2)" and
    r: "clusters_to_store_loop m xs (AList.update c (fm, ff) ts) s2 = (Inr ts', s')"
    by (auto simp: x split: prod.splits sum.splits)
  have "shaped m (AList.update c (fm, ff) ts) s2"
    unfolding shaped_def
  proof (intro allI impI)
    fix c' fl name
    assume h: "map_of (AList.update c (fm, ff) ts) c' = Some fl \<and> flag name fl"
    show "\<exists>arr n. disk s2 (c', name) = Some arr \<and> shape arr = expected_shape m name n"
    proof (cases "c' = c")
      case True
      then have fl: "fl = (fm, ff)" using h by (simp add: update_Some_unfold)
      show ?thesis
      proof (cases name)
        case Masks
        then have "fm" using h fl by (simp add: flag_def)
        then have "disk s1 (c, Masks) = Some (np_zeros (expected_shape m Masks n))"
          using prepare_file_disk [OF a] by simp
        moreover have "disk s2 (c, Masks) = disk s1 (c, Masks)"
          using prepare_file_disk [OF b, of "(c, Masks)"] by simp
        ultimately show ?thesis using True Masks by (metis shape_np_zeros)
      next
        case Features
        then have "ff" using h fl by (simp add: flag_def)
        then have "disk s2 (c, Features) = Some (np_zeros (expected_shape m Features n))"
          using prepare_file_disk [OF b] by simp
        then show ?thesis using True Features by (metis shape_np_zeros)
      qed
    next
      case False
      then have "map_of ts c' = Some fl" using h by (simp add: update_Some_unfold)
      then obtain arr n' where o: "disk s (c', name) = Some arr"
          "shape arr = expected_shape m name n'"
        using Cons.prems(2) h unfolding shaped_def by blast
      have "disk s1 (c', name) = disk s (c', name)"
        using prepare_file_disk [OF a, of "(c', name)"] False by simp
      moreover have "disk s2 (c', name) = disk s1 (c', name)"
        using prepare_file_disk [OF b, of "(c', name)"] False by simp
      ultimately show ?thesis using o by (intro exI [of _ arr] exI [of _ n']) simp
    qed
  qed
  then show ?case using Cons.IH [OF r] by simp
qed

lemma clusters_to_store_shaped:
  assumes "clusters_to_store m spc s = (Inr ts, s1)"
  shows "shaped m ts s1"
proof -
  have "shaped m [] s" by (simp add: shaped_def)
  then show ?thesis
    using assms clusters_to_store_loop_shaped unfolding clusters_to_store_def Let_def by blast
qed

lemma filter_mod_block:
  assumes "0 < (k::nat)"
  shows "[j \<leftarrow> [a * k..<a * k + k]. j mod k = 0] = [a * k]"
proof -
  have "[a * k..<a * k + k] = a * k # [Suc (a * k)..<a * k + k]"
    using assms by (simp add: upt_conv_Cons)
  moreover have "[j \<leftarrow> [Suc (a * k)..<a * k + k]. j mod k = 0] = []"
  proof -
    have "j mod k \<noteq> 0" if "Suc (a * k) \<le> j" "j < a * k + k" for j
    proof -
      have "j = a * k + (j - a * k)" "0 < j - a * k" "j - a * k < k" using that by auto
      then show ?thesis by (metis mod_less mod_mult_self3 less_numeral_extra(3))
    qed
    then show ?thesis by (auto simp: filter_empty_conv)
  qed
  ultimately show ?thesis by simp
qed

lemma length_filter_mod:
  assumes "0 < (k::nat)"
  shows "length [j \<leftarrow> [0..<k * n]. j mod k = 0] = n"
proof (induction n)
  case 0
  show ?case by simp
next
  case (Suc n)
  have "[0..<k * Suc n] = [0..<n * k] @ [n * k..<n * k + k]"
    by (metis add.commute le_add2 mult.commute mult_Suc_right upt_add_eq_append zero_le)
  then show ?case using Suc filter_mod_block [OF assms, of n] by (simp add: mult.commute)
qed

lemma data_shape:
  assumes "data m name x = Inr (shp, d)"
      and "\<forall>r \<in> set (features_masks m). nfeatures_per_channel m * n_channels m \<le> length r"
  shows "shp = tl (expected_shape m name n)"
proof (cases name)
  case Features
  then show ?thesis using assms(1)
    by (auto simp: data_def Let_def expected_shape_def split: if_splits)
next
  case Masks
  have x: "x < length (features_masks m)" and nf: "0 < nfeatures_per_channel m"
    using assms(1) Masks by (auto simp: data_def Let_def split: if_splits)
  then have "nfeatures_per_channel m * n_channels m \<le> length (features_masks m ! x)"
    using assms(2) by simp
  then have "min (nfeatures_per_channel m * n_channels m) (length (features_masks m ! x))
             = nfeatures_per_channel m * n_channels m" by simp
  then show ?thesis using assms(1) Masks x nf
    by (auto simp: data_def Let_def expected_shape_def length_filter_mod split: if_splits)
qed

subsection \<open>The invariant of the pass\<close>

lemma written_at_cong:
  assumes "written_at m name c K v s" and "disk s' (c, name) = disk s (c, name)"
      and "snd v' (name, c) = snd v (name, c)"
  shows "written_at m name c K v' s'"
  using assms unfolding written_at_def by simp

subsection \<open>The loop over the spikes\<close>

lemma store_field_frame:
  assumes "store_field m ts x c0 name0 v s = (Inr v', s')" and "name \<noteq> name0 \<or> c \<noteq> c0"
  shows "disk s' (c, name) = disk s (c, name) \<and> snd v' (name, c) = snd v (name, c)"
  using assms
  by (auto simp: store_field_def arr_open_def Let_def
      split: option.splits sum.splits if_splits prod.splits)

lemma store_field_skip:
  assumes "store_field m ts x c0 name0 v s = (Inr v', s')"
      and "map_of ts c0 = Some fl" and "\<not> flag name0 fl"
  shows "disk s' = disk s \<and> v' = v"
  using assms by (simp add: store_field_def)

lemma store_field_write:
  assumes "store_field m ts x c0 name0 v s = (Inr v', s')"
      and "map_of ts c0 = Some fl" and "flag name0 fl"
  shows "\<exists>d arr r. data m name0 x = Inr d \<and> disk s (c0, name0) = Some arr
           \<and> snd v (name0, c0) < length (rows arr)
           \<and> assign_row (tl (shape arr)) d = Inr r
           \<and> disk s' (c0, name0) = Some (arr\<lparr>rows := (rows arr)[snd v (name0, c0) := r]\<rparr>)
           \<and> snd v' (name0, c0) = snd v (name0, c0) + 1"
  using assms
  by (auto simp: store_field_def arr_open_def Let_def
      split: option.splits sum.splits if_splits prod.splits)

lemma store_field_flagged:
  assumes "store_field m ts x c0 name0 v s = (Inr v', s')"
  shows "\<exists>fl. map_of ts c0 = Some fl"
  using assms by (auto simp: store_field_def split: option.splits)

lemma store_field_other:
  assumes "store_field m ts x c0 name0 v s = (Inr v', s')" and "name \<noteq> name0"
      and "written m ts name P v s"
  shows "written m ts name P v' s'"
  unfolding written_def
proof (intro allI impI)
  fix c fl
  assume h: "map_of ts c = Some fl \<and> flag name fl"
  then have wc: "written_at m name c [j \<leftarrow> P. spike_clusters m ! j = c] v s"
    using assms(3) unfolding written_def by blast
  show "written_at m name c [j \<leftarrow> P. spike_clusters m ! j = c] v' s'"
    using store_field_frame [OF assms(1), of name c] assms(2)
    by (intro written_at_cong [OF wc]) simp_all
qed

lemma assign_row_same:
  assumes "assign_row sh (sh, d) = Inr r"
  shows "r = d"
  using assms by (simp add: assign_row_def)

lemma store_field_same:
  assumes sf: "store_field m ts x (spike_clusters m ! x) name v s = (Inr v', s')"
      and w: "written m ts name P v s"
      and wf: "\<forall>r \<in> set (features_masks m). nfeatures_per_channel m * n_channels m \<le> length r"
  shows "written m ts name (P @ [x]) v' s'"
proof -
  let ?c0 = "spike_clusters m ! x"
  obtain fl0 where fl0: "map_of ts ?c0 = Some fl0" using store_field_flagged [OF sf] by blast
  show ?thesis
    unfolding written_def
  proof (intro allI impI)
    fix c fl
    assume h: "map_of ts c = Some fl \<and> flag name fl"
    let ?k = "[j \<leftarrow> P. spike_clusters m ! j = c]"
    let ?k' = "[j \<leftarrow> P @ [x]. spike_clusters m ! j = c]"
    have wc: "written_at m name c ?k v s" using w h unfolding written_def by blast
    show "written_at m name c ?k' v' s'"
    proof (cases "c = ?c0")
      case False
      then have k: "?k' = ?k" by simp
      have "disk s' (c, name) = disk s (c, name)" "snd v' (name, c) = snd v (name, c)"
        using store_field_frame [OF sf, of name c] False by simp_all
      then show ?thesis unfolding k by (intro written_at_cong [OF wc]) simp_all
    next
      case c: True
      then have flag0: "flag name fl0" using h fl0 by simp
      have k: "?k' = ?k @ [x]" using c by simp
      obtain d arr r where
        d: "data m name x = Inr d" and arr: "disk s (c, name) = Some arr" and
        lt: "snd v (name, c) < length (rows arr)" and
        asg: "assign_row (tl (shape arr)) d = Inr r" and
        new: "disk s' (c, name) = Some (arr\<lparr>rows := (rows arr)[snd v (name, c) := r]\<rparr>)" and
        cur: "snd v' (name, c) = snd v (name, c) + 1"
        using store_field_write [OF sf fl0 flag0] c by blast
      from wc arr obtain n where
        cur0: "snd v (name, c) = length ?k" and
        shp: "shape arr = expected_shape m name n" and
        old: "\<forall>i < length ?k. i < length (rows arr) \<and>
                (\<exists>shp. data m name (?k ! i) = Inr (shp, rows arr ! i))"
        unfolding written_at_def by auto
      obtain sh dv where dd: "d = (sh, dv)" by (cases d)
      have "sh = tl (shape arr)" using data_shape [OF d [unfolded dd] wf, of n] shp by simp
      then have rd: "r = dv" using asg dd assign_row_same by simp
      let ?arr' = "arr\<lparr>rows := (rows arr)[length ?k := dv]\<rparr>"
      have a: "disk s' (c, name) = Some ?arr'" using new cur0 rd by simp
      have b: "shape ?arr' = expected_shape m name n" using shp by simp
      have e: "i < length (rows ?arr') \<and> (\<exists>shp. data m name (?k' ! i) = Inr (shp, rows ?arr' ! i))"
        if "i < length ?k'" for i
      proof (cases "i = length ?k")
        case True
        then show ?thesis using lt cur0 d dd k by (simp add: nth_append)
      next
        case False
        then have "i < length ?k" using that k by simp
        then show ?thesis using old False k by (simp add: nth_append)
      qed
      have "snd v' (name, c) = length ?k'" using cur cur0 k by simp
      then show ?thesis unfolding written_at_def using a b e by blast
    qed
  qed
qed

lemma store_fields_written:
  assumes sf: "store_fields m ts x (spike_clusters m ! x) names v s = (Inr v', s')"
      and wm: "written m ts Masks P v s" and wfe: "written m ts Features P v s"
      and wf: "\<forall>r \<in> set (features_masks m). nfeatures_per_channel m * n_channels m \<le> length r"
  shows "written m ts Masks (P @ [x]) v' s' \<and> written m ts Features (P @ [x]) v' s'"
proof -
  from sf obtain v1 s1 where
    a: "store_field m ts x (spike_clusters m ! x) Masks v s = (Inr v1, s1)" and
    b: "store_field m ts x (spike_clusters m ! x) Features v1 s1 = (Inr v', s')"
    by (auto simp: names_def split: prod.splits sum.splits)
  have "written m ts Masks (P @ [x]) v1 s1" using store_field_same [OF a wm wf] .
  then have m: "written m ts Masks (P @ [x]) v' s'"
    using store_field_other [OF b] by simp
  have "written m ts Features P v1 s1" using store_field_other [OF a _ wfe] by simp
  then have "written m ts Features (P @ [x]) v' s'" using store_field_same [OF b _ wf] by simp
  then show ?thesis using m by simp
qed

lemma report_spike_disk [simp]: "disk (report_spike it s) = disk s"
  by (simp add: report_spike_def split: option.splits)

lemma report_cluster_disk [simp]: "disk (report_cluster s) = disk s"
  by (simp add: report_cluster_def split: option.splits)

lemma report_max_disk [simp]: "disk (report_max a b s) = disk s"
  by (simp add: report_max_def split: option.splits)

lemma written_disk:
  assumes "written m ts name P v s" and "disk s' = disk s"
  shows "written m ts name P v s'"
  using assms unfolding written_def written_at_def by simp

lemma spikes_loop_written:
  assumes "spikes_loop m ts it xs v s = (Inr v', s')"
      and "written m ts Masks P v s" and "written m ts Features P v s"
      and wf: "\<forall>r \<in> set (features_masks m). nfeatures_per_channel m * n_channels m \<le> length r"
  shows "written m ts Masks (P @ xs) v' s' \<and> written m ts Features (P @ xs) v' s'"
  using assms(1-3)
proof (induction xs arbitrary: it v s P)
  case Nil
  then show ?case by simp
next
  case (Cons x xs)
  from Cons.prems(1) obtain v1 s1 where
    a: "store_fields m ts x (spike_clusters m ! x) names v s = (Inr v1, s1)" and
    b: "spikes_loop m ts (it + 1) xs v1 (report_spike it s1) = (Inr v', s')"
    by (auto split: if_splits prod.splits sum.splits)
  have w1: "written m ts Masks (P @ [x]) v1 s1" "written m ts Features (P @ [x]) v1 s1"
    using store_fields_written [OF a Cons.prems(2,3) wf] by simp_all
  have "written m ts Masks (P @ [x]) v1 (report_spike it s1)"
       "written m ts Features (P @ [x]) v1 (report_spike it s1)"
    using w1 by (auto intro: written_disk)
  then show ?case using Cons.IH [OF b, of "P @ [x]"] by simp
qed

lemma store_extra_fields_disk:
  "disk (snd (store_extra_fields m c f a s)) = disk s"
  by (simp add: store_extra_fields_def split: option.splits sum.splits)

lemma extra_loop_disk: "disk (snd (extra_loop m cs s)) = disk s"
proof (induction cs arbitrary: s)
  case Nil
  show ?case by simp
next
  case (Cons c cs)
  show ?case
    using store_extra_fields_disk [of m c "disk s (c, Features)" "disk s (c, Masks)" s]
    by (auto simp: Cons.IH split: prod.splits sum.splits)
qed

lemma fold_close_disk:
  "disk (fold (\<lambda>h s2. s2\<lparr>open_files := open_files s2 - {#h#}\<rparr>) hs s) = disk s"
  by (induction hs arbitrary: s) simp_all

lemma close_all_disk: "disk (close_all files s) = disk s"
  by (simp add: close_all_def names_def fold_close_disk)

lemma written_initial:
  assumes "shaped m ts s"
  shows "written m ts name [] ([], \<lambda>k. 0) s"
  using assms unfolding written_def written_at_def shaped_def by auto

lemma spikes_of_needed_cluster:
  assumes "map_of ts c = Some fl" and "flag name fl"
  shows "[j \<leftarrow> spikes_in_clusters (spike_clusters m) (clusters_needed ts). spike_clusters m ! j = c]
         = spikes_of_cluster m c"
proof -
  have "flag Masks fl \<or> flag Features fl" using assms(2) by (cases name) simp_all
  moreover have "c \<in> set (map fst ts)" using assms(1) by (metis map_of_SomeD fst_conv image_eqI set_map)
  ultimately have c: "c \<in> set (clusters_needed ts)"
    using assms(1) by (simp add: clusters_needed_def)
  then have ne: "clusters_needed ts \<noteq> []" by auto
  have "(\<lambda>j. spike_clusters m ! j \<in> set (clusters_needed ts) \<and> spike_clusters m ! j = c)
        = (\<lambda>j. spike_clusters m ! j = c)"
    using c by auto
  then show ?thesis
    using ne by (simp add: spikes_in_clusters_def spikes_of_cluster_def)
qed

text \<open>
  C4. After \<^verbatim>\<open>store_all_clusters\<close> has returned, for every cluster and field that
  \<^verbatim>\<open>_clusters_to_store\<close> marked for population, row \<open>i\<close> of the stored array holds
  the data of the \<open>(i+1)\<close>-th smallest spike id of that cluster in the model. The
  model's \<^verbatim>\<open>features_masks\<close> has a column for every feature of every channel.
\<close>

theorem store_all_clusters_rows:
  assumes prep: "clusters_to_store m spc s = (Inr ts, s1)"
      and run: "store_all_clusters m spc s = (Inr (), s')"
      and marked: "map_of ts c = Some fl" "flag name fl"
      and wf: "\<forall>r \<in> set (features_masks m). nfeatures_per_channel m * n_channels m \<le> length r"
      and i: "i < length (spikes_of_cluster m c)"
  shows "\<exists>arr shp. disk s' (c, name) = Some arr \<and> i < length (rows arr)
           \<and> data m name (spikes_of_cluster m c ! i) = Inr (shp, rows arr ! i)"
proof -
  define spikes where "spikes = spikes_in_clusters (spike_clusters m) (clusters_needed ts)"
  define s2 where "s2 = report_max (length spikes) (length spc) s1"
  obtain v s3 where b: "spikes_loop m ts 0 spikes ([], \<lambda>k. 0) s2 = (Inr v, s3)"
    using run prep
    by (auto simp: store_all_clusters_def Let_def spikes_def s2_def split: prod.splits sum.splits)
  obtain s4 where c: "extra_loop m (sort (map fst spc)) s3 = (Inr (), s4)"
    and d: "s' = close_all (fst v) s4"
    using run prep b
    by (auto simp: store_all_clusters_def Let_def spikes_def s2_def split: prod.splits sum.splits)
  have "shaped m ts s2"
    using clusters_to_store_shaped [OF prep] by (simp add: shaped_def s2_def)
  then have "written m ts name [] ([], \<lambda>k. 0) s2" for name by (rule written_initial)
  then have "written m ts Masks ([] @ spikes) v s3 \<and> written m ts Features ([] @ spikes) v s3"
    using spikes_loop_written [OF b _ _ wf] by blast
  then have "written m ts name spikes v s3" by (cases name) simp_all
  then have "written_at m name c [j \<leftarrow> spikes. spike_clusters m ! j = c] v s3"
    using marked unfolding written_def by blast
  then have w: "written_at m name c (spikes_of_cluster m c) v s3"
    using spikes_of_needed_cluster [OF marked] by (simp add: spikes_def)
  have "disk s4 = disk s3" using extra_loop_disk [of m "sort (map fst spc)" s3] c by simp
  then have "disk s' = disk s3" using d by (simp add: close_all_disk)
  then show ?thesis using w i unfolding written_at_def by auto
qed

theorem store_all_clusters_rows_witness:
  "clusters_to_store two_cluster_model [(5, [0, 2]), (2, [1])] empty_state
     = (Inr [(2, (True, True)), (5, (True, True))],
        snd (clusters_to_store two_cluster_model [(5, [0, 2]), (2, [1])] empty_state))
   \<and> fst (store_all_clusters two_cluster_model [(5, [0, 2]), (2, [1])] empty_state) = Inr ()
   \<and> spikes_of_cluster two_cluster_model 5 = [0, 2]
   \<and> data two_cluster_model Masks 2 = Inr ([2], [1 / 2, 1])
   \<and> (\<exists>arr. disk (snd (store_all_clusters two_cluster_model [(5, [0, 2]), (2, [1])]
                          empty_state)) (5, Masks) = Some arr
           \<and> rows arr ! 1 = [1 / 2, 1])"
proof -
  let ?m = two_cluster_model
  let ?spc = "[(5, [0, 2]), (2, [1])] :: (int, nat list) dict"
  have p: "clusters_to_store ?m ?spc empty_state
           = (Inr [(2, (True, True)), (5, (True, True))],
              snd (clusters_to_store ?m ?spc empty_state))"
    by (simp add: two_cluster_model_def empty_state_def pass_simps Let_def)
  have r0: "fst (store_all_clusters ?m ?spc empty_state) = Inr ()"
    by (simp add: two_cluster_model_def empty_state_def pass_simps extra_simps Let_def
        numeral_2_eq_2)
  then have r: "store_all_clusters ?m ?spc empty_state
                = (Inr (), snd (store_all_clusters ?m ?spc empty_state))"
    by (metis prod.collapse)
  have k: "spikes_of_cluster ?m 5 = [0, 2]"
    by (simp add: spikes_of_cluster_def two_cluster_model_def upt_conv_Cons)
  have wf: "\<forall>r \<in> set (features_masks ?m). nfeatures_per_channel ?m * n_channels ?m \<le> length r"
    by (simp add: two_cluster_model_def)
  have d: "data ?m Masks 2 = Inr ([2], [1 / 2, 1])"
    by (simp add: data_def two_cluster_model_def Let_def upt_conv_Cons)
  have mk: "map_of [(2, (True, True)), (5, (True, True))] (5::int) = Some (True, True)"
      "flag Masks (True, True)" "1 < length (spikes_of_cluster ?m 5)"
    by (simp_all add: flag_def k)
  have "\<exists>arr. disk (snd (store_all_clusters ?m ?spc empty_state)) (5, Masks) = Some arr
          \<and> rows arr ! 1 = [1 / 2, 1]"
    using store_all_clusters_rows [OF p r mk(1,2) wf mk(3)] k d by auto
  then show ?thesis using p r0 k d by blast
qed

section \<open>Properties of \<^verbatim>\<open>_spikes_per_cluster\<close>\<close>

subsection \<open>Boundaries and blocks of the sorted labels\<close>

lemma int64_id:
  assumes "0 \<le> a" and "a \<le> b" and "b < 2 ^ 63"
  shows "int64 (b - a) = b - a"
proof -
  have "0 \<le> b - a + 2 ^ 63" "b - a + 2 ^ 63 < 2 ^ 64" using assms by simp_all
  then have "(b - a + 2 ^ 63) mod 2 ^ 64 = b - a + 2 ^ 63" by (rule mod_pos_pos_trivial)
  then show ?thesis by (simp add: int64_def)
qed

lemma diff_positive_iff:
  assumes "sorted sc" and "\<forall>c \<in> set sc. 0 \<le> c \<and> c < 2 ^ 63" and "i < length sc"
  shows "0 < (1 # np_diff sc) ! i \<longleftrightarrow> boundary sc i"
proof (cases i)
  case 0
  then show ?thesis by (simp add: boundary_def)
next
  case (Suc k)
  have k: "k < length sc - 1" "Suc k < length sc" "k < length sc" using assms(3) Suc by simp_all
  have le: "sc ! k \<le> sc ! Suc k" using assms(1) k by (simp add: sorted_nth_mono)
  have "0 \<le> sc ! k" "sc ! Suc k < 2 ^ 63" using assms(2) k by simp_all
  then have "int64 (sc ! Suc k - sc ! k) = sc ! Suc k - sc ! k" using le by (simp add: int64_id)
  then show ?thesis using Suc k by (simp add: np_diff_def boundary_def)
qed

lemma idx_boundaries:
  assumes "sorted sc" and "\<forall>c \<in> set sc. 0 \<le> c \<and> c < 2 ^ 63" and "sc \<noteq> []"
  shows "[i \<leftarrow> [0..<length (1 # np_diff sc)]. 0 < (1 # np_diff sc) ! i] = boundaries sc"
proof -
  have "length (1 # np_diff sc) = length sc" using assms(3) by (simp add: np_diff_def)
  then show ?thesis
    unfolding boundaries_def using diff_positive_iff [OF assms(1,2)]
    by (auto intro!: filter_cong)
qed

lemma boundaries_sorted: "sorted_wrt (<) (boundaries sc)"
  unfolding boundaries_def by (simp add: sorted_wrt_filter)

lemma set_boundaries: "set (boundaries sc) = {i. i < length sc \<and> boundary sc i}"
  unfolding boundaries_def by auto

lemma boundaries_nth_less:
  assumes "t < u" and "u < length (boundaries sc)"
  shows "boundaries sc ! t < boundaries sc ! u"
  using boundaries_sorted assms by (simp add: sorted_wrt_nth_less)

lemma boundaries_nth_bound:
  assumes "t < length (boundaries sc)"
  shows "boundaries sc ! t < length sc" and "boundary sc (boundaries sc ! t)"
  using assms set_boundaries nth_mem by blast+

lemma block_bounds:
  assumes "t < length (boundaries sc)"
  shows "boundaries sc ! t < block_end sc t" and "block_end sc t \<le> length sc"
  using assms boundaries_nth_less [of t "t + 1" sc] boundaries_nth_bound(1) [of "t + 1" sc]
    boundaries_nth_bound(1) [of t sc]
  by (auto simp: block_end_def)

lemma no_boundary_in_block:
  assumes t: "t < length (boundaries sc)"
      and k: "boundaries sc ! t < k" "k < block_end sc t"
  shows "\<not> boundary sc k"
proof
  assume b: "boundary sc k"
  have "k < length sc" using k(2) block_bounds(2) [OF t] by simp
  then have "k \<in> set (boundaries sc)" using b set_boundaries by simp
  then obtain u where u: "u < length (boundaries sc)" "boundaries sc ! u = k"
    by (auto simp: in_set_conv_nth)
  have tu: "t < u"
  proof (rule ccontr)
    assume "\<not> t < u"
    then have "u = t \<or> u < t" by auto
    then show False using k(1) u boundaries_nth_less [of u t sc] t by auto
  qed
  show False
  proof (cases "t + 1 < length (boundaries sc)")
    case True
    then have "k < boundaries sc ! (t + 1)" using k(2) by (simp add: block_end_def)
    moreover have "u = t + 1 \<or> t + 1 < u" using tu by auto
    ultimately show False using u boundaries_nth_less [of "t + 1" u sc] by auto
  next
    case False
    then show False using tu u by simp
  qed
qed

lemma constant_run:
  assumes "sorted sc" and "j < length sc" and "i \<le> j"
      and "\<forall>k. i < k \<and> k \<le> j \<longrightarrow> \<not> boundary sc k"
  shows "sc ! j = sc ! i"
  using assms(3,2,4)
proof (induction j rule: dec_induct)
  case base
  show ?case by simp
next
  case (step j)
  have "\<not> boundary sc (Suc j)" using step.prems(2) step.hyps by simp
  then have "\<not> sc ! j < sc ! Suc j" by (simp add: boundary_def)
  moreover have "sc ! j \<le> sc ! Suc j" using assms(1) step.prems(1) by (simp add: sorted_nth_mono)
  ultimately have "sc ! Suc j = sc ! j" by simp
  then show ?case using step by simp
qed

lemma block_constant:
  assumes "sorted sc" and t: "t < length (boundaries sc)"
      and "boundaries sc ! t \<le> j" and "j < block_end sc t"
  shows "sc ! j = sc ! (boundaries sc ! t)"
proof (rule constant_run [OF assms(1) _ assms(3)])
  show "j < length sc" using assms(4) block_bounds(2) [OF t] by simp
  show "\<forall>k. boundaries sc ! t < k \<and> k \<le> j \<longrightarrow> \<not> boundary sc k"
    using no_boundary_in_block [OF t] assms(4) by simp
qed

lemma boundary_step:
  assumes "sorted sc" and "boundary sc b" and "j < b" and "b < length sc"
  shows "sc ! j < sc ! b"
proof -
  have "sc ! (b - 1) < sc ! b" using assms(2,3) by (auto simp: boundary_def)
  moreover have "sc ! j \<le> sc ! (b - 1)" using assms(1,3,4) by (simp add: sorted_nth_mono)
  ultimately show ?thesis by simp
qed

lemma outside_block:
  assumes "sorted sc" and t: "t < length (boundaries sc)" and "j < length sc"
      and "j < boundaries sc ! t \<or> block_end sc t \<le> j"
  shows "sc ! j \<noteq> sc ! (boundaries sc ! t)"
proof (cases "j < boundaries sc ! t")
  case True
  then show ?thesis
    using boundary_step [OF assms(1) boundaries_nth_bound(2) [OF t] True boundaries_nth_bound(1) [OF t]]
    by simp
next
  case False
  then have ge: "block_end sc t \<le> j" using assms(4) by simp
  then have lt: "t + 1 < length (boundaries sc)" using assms(3) by (auto simp: block_end_def split: if_splits)
  then have e: "block_end sc t = boundaries sc ! (t + 1)" by (simp add: block_end_def)
  let ?h = "block_end sc t"
  have h: "boundary sc ?h" "?h < length sc" using boundaries_nth_bound [OF lt] e by simp_all
  have "sc ! (?h - 1) = sc ! (boundaries sc ! t)"
    using block_bounds(1) [OF t] by (intro block_constant [OF assms(1) t]) auto
  moreover have "sc ! (?h - 1) < sc ! ?h"
    using boundary_step [OF assms(1) h(1) _ h(2), of "?h - 1"] block_bounds(1) [OF t] by simp
  moreover have "sc ! ?h \<le> sc ! j" using assms(1,3) ge by (simp add: sorted_nth_mono)
  ultimately show ?thesis by simp
qed

lemma upt_split: "a \<le> b \<Longrightarrow> b \<le> c \<Longrightarrow> [a..<c] = [a..<b] @ [b..<c]"
  using upt_add_eq_append [of a b "c - b"] by simp

lemma block_filter:
  assumes "sorted sc" and t: "t < length (boundaries sc)"
  shows "[j \<leftarrow> [0..<length sc]. sc ! j = sc ! (boundaries sc ! t)]
         = [boundaries sc ! t..<block_end sc t]"
proof -
  let ?lo = "boundaries sc ! t" and ?hi = "block_end sc t"
  let ?P = "\<lambda>j. sc ! j = sc ! ?lo"
  have split: "[0..<length sc] = [0..<?lo] @ [?lo..<?hi] @ [?hi..<length sc]"
    using block_bounds [OF t] upt_split [of 0 ?lo "length sc"] upt_split [of ?lo ?hi "length sc"]
    by simp
  have a: "filter ?P [0..<?lo] = []"
  proof -
    have "\<not> ?P j" if "j < ?lo" for j
      using outside_block [OF assms, of j] that boundaries_nth_bound(1) [OF t] by simp
    then show ?thesis by (simp add: filter_empty_conv)
  qed
  have b: "filter ?P [?lo..<?hi] = [?lo..<?hi]"
  proof -
    have "\<forall>j \<in> set [?lo..<?hi]. ?P j"
    proof
      fix j
      assume "j \<in> set [?lo..<?hi]"
      then have "?lo \<le> j" "j < ?hi" by simp_all
      then show "?P j" by (rule block_constant [OF assms])
    qed
    then show ?thesis unfolding filter_id_conv .
  qed
  have c: "filter ?P [?hi..<length sc] = []"
  proof -
    have "\<not> ?P j" if "?hi \<le> j" "j < length sc" for j
      using outside_block [OF assms, of j] that by simp
    then show ?thesis by (simp add: filter_empty_conv)
  qed
  show ?thesis by (subst split) (simp add: a b c)
qed

lemma clusters_strict:
  assumes "sorted sc"
  shows "sorted_wrt (<) (map (\<lambda>i. sc ! i) (boundaries sc))"
proof -
  have "sc ! (boundaries sc ! t) < sc ! (boundaries sc ! u)"
    if "t < u" "u < length (boundaries sc)" for t u
    using boundary_step [OF assms boundaries_nth_bound(2) [OF that(2)]
        boundaries_nth_less [OF that] boundaries_nth_bound(1) [OF that(2)]] .
  then show ?thesis by (simp add: sorted_wrt_iff_nth_less)
qed

lemma clusters_set:
  assumes "sorted sc"
  shows "set (map (\<lambda>i. sc ! i) (boundaries sc)) = set sc"
proof
  show "set (map (\<lambda>i. sc ! i) (boundaries sc)) \<subseteq> set sc"
    using set_boundaries by auto
  have "sc ! j \<in> set (map (\<lambda>i. sc ! i) (boundaries sc))" if "j < length sc" for j
    using that
  proof (induction j)
    case 0
    then have "0 \<in> set (boundaries sc)" by (simp add: set_boundaries boundary_def)
    then show ?case by auto
  next
    case (Suc j)
    show ?case
    proof (cases "boundary sc (Suc j)")
      case True
      then have "Suc j \<in> set (boundaries sc)" using Suc.prems by (simp add: set_boundaries)
      then show ?thesis by auto
    next
      case False
      then have "\<not> sc ! j < sc ! Suc j" by (simp add: boundary_def)
      moreover have "sc ! j \<le> sc ! Suc j" using assms Suc.prems by (simp add: sorted_nth_mono)
      ultimately show ?thesis using Suc by simp
    qed
  qed
  then show "set sc \<subseteq> set (map (\<lambda>i. sc ! i) (boundaries sc))"
    by (auto simp: in_set_conv_nth)
qed

subsection \<open>The dictionary that is built\<close>

lemma update_fresh: "k \<notin> fst ` set al \<Longrightarrow> AList.update k v al = al @ [(k, v)]"
  by (induct al) auto

lemma fold_update_fresh:
  assumes "distinct (map key js)" and "\<forall>i \<in> set js. key i \<notin> fst ` set al"
  shows "fold (\<lambda>i. AList.update (key i) (val i)) js al = al @ map (\<lambda>i. (key i, val i)) js"
  using assms
proof (induction js arbitrary: al)
  case Nil
  show ?case by simp
next
  case (Cons j js)
  have "AList.update (key j) (val j) al = al @ [(key j, val j)]"
    using Cons.prems(2) by (simp add: update_fresh)
  moreover have "\<forall>i \<in> set js. key i \<notin> fst ` set (al @ [(key j, val j)])"
  proof
    fix i
    assume i: "i \<in> set js"
    have "key j \<notin> key ` set js" using Cons.prems(1) by simp
    then have "key i \<noteq> key j" using i by (metis imageI)
    moreover have "key i \<notin> fst ` set al" using Cons.prems(2) i by simp
    ultimately show "key i \<notin> fst ` set (al @ [(key j, val j)])" by auto
  qed
  moreover have "distinct (map key js)" using Cons.prems(1) by simp
  ultimately show ?case using Cons.IH [of "al @ [(key j, val j)]"] by simp
qed

lemma zip_nth_upt:
  assumes "length xs = length ys"
  shows "zip xs ys = map (\<lambda>i. (xs ! i, ys ! i)) [0..<length xs]"
  using assms by (intro nth_equalityI) simp_all

lemma slice_nth:
  assumes "b \<le> length xs"
  shows "slice xs a b = map (\<lambda>i. xs ! i) [a..<b]"
  using assms by (intro nth_equalityI) (auto simp: slice_def)

lemma drop_slice: "drop a xs = slice xs a (length xs)"
  by (simp add: slice_def)

lemma members_block:
  assumes "sorted sc" and t: "t < length (boundaries sc)" and "length asp = length sc"
  shows "members asp sc (sc ! (boundaries sc ! t))
         = slice asp (boundaries sc ! t) (block_end sc t)"
proof -
  let ?c = "sc ! (boundaries sc ! t)"
  have "[p \<leftarrow> zip sc asp. fst p = ?c]
        = map (\<lambda>i. (sc ! i, asp ! i)) [i \<leftarrow> [0..<length sc]. sc ! i = ?c]"
    using assms(3) by (simp add: zip_nth_upt filter_map o_def)
  then have "members asp sc ?c = map (\<lambda>i. asp ! i) [boundaries sc ! t..<block_end sc t]"
    by (simp add: members_def block_filter [OF assms(1) t] o_def)
  then show ?thesis using block_bounds(2) [OF t] assms(3) by (simp add: slice_nth)
qed

lemma members_perm:
  assumes "mset rel = mset [0..<length labels]" and "length ids = length labels"
  shows "mset (members (map (\<lambda>i. ids ! i) rel) (map (\<lambda>i. labels ! i) rel) c)
         = mset (members ids labels c)"
proof -
  let ?f = "\<lambda>i. (labels ! i, ids ! i)"
  have "zip (map (\<lambda>i. labels ! i) rel) (map (\<lambda>i. ids ! i) rel) = map ?f rel"
    by (simp add: zip_map_map zip_same_conv_map)
  then have "mset (zip (map (\<lambda>i. labels ! i) rel) (map (\<lambda>i. ids ! i) rel))
             = image_mset ?f (mset [0..<length labels])"
    using assms(1) by (metis mset_map)
  also have "\<dots> = mset (zip labels ids)"
    using assms(2) by (simp add: zip_nth_upt)
  finally show ?thesis by (simp add: members_def)
qed

lemma sort_mset_cong: "mset xs = mset ys \<Longrightarrow> sort xs = sort ys"
  by (metis mset_sort properties_for_sort sorted_sort)

lemma map_nth_fun: "map (\<lambda>t. f (xs ! t)) [0..<length xs] = map f xs"
  by (intro nth_equalityI) simp_all

text \<open>
  The dictionary that \<^verbatim>\<open>_spikes_per_cluster\<close> returns: one entry per distinct label,
  in ascending order of label, with the sorted spike ids of the label.
\<close>

lemma spikes_per_cluster_result:
  fixes ids :: "('a :: linorder) list"
  assumes ne: "labels \<noteq> []"
      and len: "length ids = length labels"
      and rng: "\<forall>c \<in> set labels. 0 \<le> c \<and> c < 2 ^ 63"
      and srt: "is_argsort (np_argsort labels) labels"
  shows "\<exists>ks. spikes_per_cluster np_argsort ids labels
               = Inr (map (\<lambda>c. (c, sort (members ids labels c))) ks)
             \<and> sorted_wrt (<) ks \<and> set ks = set labels"
proof -
  define rel where "rel = np_argsort labels"
  define n where "n = length labels"
  define sc where "sc = map (\<lambda>i. labels ! i) rel"
  define asp where "asp = map (\<lambda>i. ids ! i) rel"
  define B where "B = boundaries sc"
  define ks where "ks = map (\<lambda>i. sc ! i) B"
  define val where "val t = sort (slice asp (B ! t) (block_end sc t))" for t
  have perm: "mset rel = mset [0..<n]" and sorted: "sorted sc"
    using srt by (simp_all add: is_argsort_def rel_def n_def sc_def)
  have set_rel: "set rel = {0..<n}" using perm by (metis mset_eq_setD set_upt)
  have len_rel: "length rel = n" using perm by (metis mset_eq_length length_upt diff_zero)
  have in_range: "\<not> list_ex (\<lambda>i. length ids \<le> i \<or> length labels \<le> i) rel"
    using set_rel len by (auto simp: list_ex_iff n_def)
  have sc_ne: "sc \<noteq> []" using len_rel ne by (auto simp: sc_def n_def)
  have set_sc: "set sc = set labels"
  proof -
    have "mset sc = image_mset (\<lambda>i. labels ! i) (mset [0..<n])"
      unfolding sc_def using perm by (metis mset_map)
    also have "\<dots> = mset labels" by (metis map_nth mset_map n_def)
    finally show ?thesis by (rule mset_eq_setD)
  qed
  have rng_sc: "\<forall>c \<in> set sc. 0 \<le> c \<and> c < 2 ^ 63" using rng set_sc by simp
  have len_asp: "length asp = length sc" by (simp add: asp_def sc_def)
  have idx: "[i \<leftarrow> [0..<length (1 # np_diff sc)]. 0 < (1 # np_diff sc) ! i] = B"
    unfolding B_def by (rule idx_boundaries [OF sorted rng_sc sc_ne])
  have "0 \<in> set B" using sc_ne by (simp add: B_def set_boundaries boundary_def)
  then have B_ne: "B \<noteq> []" by auto
  define K where "K = length B"
  have K: "0 < K" using B_ne by (simp add: K_def)
  have strict: "sorted_wrt (<) ks" unfolding ks_def B_def by (rule clusters_strict [OF sorted])
  then have dist: "distinct ks" by (simp add: strict_sorted_iff)
  have set_ks: "set ks = set labels"
    unfolding ks_def B_def using clusters_set [OF sorted] set_sc by simp
  have last_ks: "last ks = ks ! (K - 1)" "last B = B ! (K - 1)"
    using B_ne by (simp_all add: ks_def K_def last_conv_nth)
  have "block_end sc (K - 1) = length sc" using K by (simp add: block_end_def K_def B_def)
  then have last_val: "sort (drop (last B) asp) = val (K - 1)"
    by (simp add: val_def last_ks drop_slice len_asp)
  have body: "(\<lambda>i. AList.update (ks ! i) (sort (slice asp (B ! i) (B ! (i + 1))))) i
              = (\<lambda>i. AList.update (ks ! i) (val i)) i" if "i \<in> set [0..<K - 1]" for i
  proof -
    have "i + 1 < length (boundaries sc)" using that by (simp add: K_def B_def less_diff_conv)
    then show ?thesis by (simp add: val_def block_end_def B_def)
  qed
  have fold1: "fold (\<lambda>i. AList.update (ks ! i) (sort (slice asp (B ! i) (B ! (i + 1)))))
                  [0..<K - 1] []
               = fold (\<lambda>i. AList.update (ks ! i) (val i)) [0..<K - 1] []"
    using body by (intro fold_cong) simp_all
  have len_ks: "length ks = K" by (simp add: ks_def K_def)
  have "distinct (map (\<lambda>i. ks ! i) [0..<K])"
    using dist map_nth [of ks] by (simp add: len_ks)
  then have fold2: "fold (\<lambda>i. AList.update (ks ! i) (val i)) [0..<K] []
                    = map (\<lambda>i. (ks ! i, val i)) [0..<K]"
    using fold_update_fresh [of "\<lambda>i. ks ! i" "[0..<K]" "[]" val] by simp
  have upt: "[0..<K] = [0..<K - 1] @ [K - 1]" using K by (metis Suc_diff_1 upt_Suc_append zero_le)
  have final: "AList.update (last ks) (sort (drop (last B) asp))
                 (fold (\<lambda>i. AList.update (ks ! i) (sort (slice asp (B ! i) (B ! (i + 1)))))
                    [0..<K - 1] [])
               = map (\<lambda>i. (ks ! i, val i)) [0..<K]"
    unfolding fold1 last_val last_ks(1) using fold2 by (subst (asm) upt) simp
  have vals: "val t = sort (members ids labels (ks ! t))" if "t < K" for t
  proof -
    have t: "t < length (boundaries sc)" using that by (simp add: K_def B_def)
    have "ks ! t = sc ! (boundaries sc ! t)" using t by (simp add: ks_def B_def)
    then have "val t = sort (members asp sc (ks ! t))"
      using members_block [OF sorted t len_asp] by (simp add: val_def B_def)
    moreover have "mset (members asp sc (ks ! t)) = mset (members ids labels (ks ! t))"
      unfolding asp_def sc_def using members_perm [OF perm [unfolded n_def] len] .
    ultimately show ?thesis using sort_mset_cong by metis
  qed
  have "map (\<lambda>i. (ks ! i, val i)) [0..<K]
        = map (\<lambda>i. (ks ! i, sort (members ids labels (ks ! i)))) [0..<K]"
    using vals by simp
  also have "\<dots> = map (\<lambda>c. (c, sort (members ids labels c))) ks"
    using map_nth_fun [of "\<lambda>c. (c, sort (members ids labels c))" ks]
    by (simp add: len_ks)
  finally have res: "AList.update (last ks) (sort (drop (last B) asp))
                 (fold (\<lambda>i. AList.update (ks ! i) (sort (slice asp (B ! i) (B ! (i + 1)))))
                    [0..<K - 1] [])
               = map (\<lambda>c. (c, sort (members ids labels c))) ks"
    using final by simp
  have "spikes_per_cluster np_argsort ids labels
        = Inr (map (\<lambda>c. (c, sort (members ids labels c))) ks)"
    unfolding spikes_per_cluster_def Let_def rel_def [symmetric] sc_def [symmetric]
      asp_def [symmetric] idx ks_def [symmetric] len_ks
    using in_range sc_ne res by simp
  then show ?thesis using strict set_ks by (intro exI [of _ ks] conjI)
qed

lemma sum_members:
  assumes "finite S" and "\<forall>p \<in># Z. fst p \<in> S"
  shows "(\<Sum>c \<in> S. image_mset snd (filter_mset (\<lambda>p. fst p = c) Z)) = image_mset snd Z"
  using assms(2)
proof (induction Z)
  case empty
  show ?case by simp
next
  case (add p Z)
  have "(\<Sum>c \<in> S. image_mset snd (filter_mset (\<lambda>q. fst q = c) (add_mset p Z)))
        = (\<Sum>c \<in> S. (if c = fst p then {#snd p#} else {#})
                      + image_mset snd (filter_mset (\<lambda>q. fst q = c) Z))"
    by (intro sum.cong) auto
  also have "\<dots> = (\<Sum>c \<in> S. if c = fst p then {#snd p#} else {#})
                   + (\<Sum>c \<in> S. image_mset snd (filter_mset (\<lambda>q. fst q = c) Z))"
    by (rule sum.distrib)
  also have "(\<Sum>c \<in> S. if c = fst p then {#snd p#} else {#}) = {#snd p#}"
    using assms(1) add.prems by (simp add: sum.delta)
  finally show ?case using add by simp
qed

lemma mset_members_concat:
  assumes "distinct ks" and "set labels \<subseteq> set ks" and "length ids = length labels"
  shows "mset (concat (map (\<lambda>c. sort (members ids labels c)) ks)) = mset ids"
proof -
  let ?Z = "mset (zip labels ids)"
  have "mset (concat (map (\<lambda>c. sort (members ids labels c)) ks))
        = (\<Sum>c \<leftarrow> ks. image_mset snd (filter_mset (\<lambda>p. fst p = c) ?Z))"
    by (simp add: mset_concat o_def members_def)
  also have "\<dots> = (\<Sum>c \<in> set ks. image_mset snd (filter_mset (\<lambda>p. fst p = c) ?Z))"
    using assms(1) by (rule sum_list_distinct_conv_sum_set)
  also have "\<dots> = image_mset snd ?Z"
  proof (rule sum_members)
    show "finite (set ks)" by simp
    show "\<forall>p \<in># ?Z. fst p \<in> set ks" using assms(2) by (auto dest: set_zip_leftD)
  qed
  also have "\<dots> = mset ids" using assms(3) by (metis map_snd_zip mset_map)
  finally show ?thesis .
qed

lemma set_members: "set (members ids labels c) = {x. (c, x) \<in> set (zip labels ids)}"
  by (auto simp: members_def image_iff)

lemma members_disjoint:
  assumes "distinct ids" and "c \<noteq> c'"
  shows "set (members ids labels c) \<inter> set (members ids labels c') = {}"
proof -
  have False if a: "(c, x) \<in> set (zip labels ids)" and b: "(c', x) \<in> set (zip labels ids)" for x
  proof -
    obtain i where i: "i < length ids" "i < length labels" "labels ! i = c" "ids ! i = x"
      using a by (auto simp: set_zip)
    obtain j where j: "j < length ids" "j < length labels" "labels ! j = c'" "ids ! j = x"
      using b by (auto simp: set_zip)
    have "i = j" using assms(1) i(1,4) j(1,4) by (metis nth_eq_iff_index_eq)
    then show False using i(3) j(3) assms(2) by simp
  qed
  then show ?thesis unfolding set_members by auto
qed

text \<open>
  C1. For a non-empty array of non-negative 64-bit labels and an array of spike ids of
  the same length, \<^verbatim>\<open>_spikes_per_cluster\<close> returns a dictionary whose keys are the
  distinct labels that occur, whose value for a label is the ascending sequence of the
  spike ids with that label, and whose values together hold every spike id exactly
  once; when the spike ids are distinct the values are pairwise disjoint. This holds
  for every sorting permutation that \<^verbatim>\<open>np.argsort\<close> may return.
\<close>

theorem spikes_per_cluster_partition:
  fixes ids :: "('a :: linorder) list"
  assumes "labels \<noteq> []"
      and "length ids = length labels"
      and "\<forall>c \<in> set labels. 0 \<le> c \<and> c < 2 ^ 63"
      and "is_argsort (np_argsort labels) labels"
  shows "\<exists>d. spikes_per_cluster np_argsort ids labels = Inr d
           \<and> distinct (map fst d) \<and> set (map fst d) = set labels
           \<and> (\<forall>c \<in> set labels. map_of d c = Some (sort (members ids labels c)))
           \<and> mset (concat (map snd d)) = mset ids
           \<and> (distinct ids \<longrightarrow>
                (\<forall>c v c' v'. (c, v) \<in> set d \<and> (c', v') \<in> set d \<and> c \<noteq> c'
                    \<longrightarrow> set v \<inter> set v' = {}))"
proof -
  let ?f = "\<lambda>c. sort (members ids labels c)"
  obtain ks where
    r: "spikes_per_cluster np_argsort ids labels = Inr (map (\<lambda>c. (c, ?f c)) ks)" and
    strict: "sorted_wrt (<) ks" and ks: "set ks = set labels"
    using spikes_per_cluster_result
      [where labels = labels and ids = ids and np_argsort = np_argsort, OF assms]
    by blast
  let ?d = "map (\<lambda>c. (c, ?f c)) ks"
  have dist: "distinct ks" using strict by (simp add: strict_sorted_iff)
  have keys: "map fst ?d = ks" by (simp add: o_def)
  have look: "\<forall>c \<in> set labels. map_of ?d c = Some (?f c)"
    using ks by (simp add: map_of_map_restrict)
  have vals: "map snd ?d = map ?f ks" by (simp add: o_def)
  have "mset (concat (map ?f ks)) = mset ids"
    using mset_members_concat [OF dist _ assms(2)] ks by simp
  then have all: "mset (concat (map snd ?d)) = mset ids" unfolding vals .
  have disj: "set v \<inter> set v' = {}"
    if "distinct ids" "(c, v) \<in> set ?d" "(c', v') \<in> set ?d" "c \<noteq> c'" for c v c' v'
  proof -
    have "v = ?f c" "v' = ?f c'" using that(2,3) by auto
    then show ?thesis using members_disjoint [OF that(1,4), of labels] by simp
  qed
  show ?thesis
    using r keys dist ks look all disj by (intro exI [of _ ?d]) (simp only:, blast)
qed

theorem spikes_per_cluster_partition_witness:
  "spikes_per_cluster argsort [10, 11, 12, 13, 14 :: nat] [7, 3, 7, 3, 7]
     = Inr [(3, [11, 13]), (7, [10, 12, 14])]
   \<and> members [10, 11, 12, 13, 14 :: nat] [7, 3, 7, 3, 7] 7 = [10, 12, 14]"
proof -
  let ?ids = "[10, 11, 12, 13, 14 :: nat]"
  let ?labels = "[7, 3, 7, 3, 7 :: int]"
  have a: "?labels \<noteq> []" "length ?ids = length ?labels"
      "\<forall>c \<in> set ?labels. 0 \<le> c \<and> c < 2 ^ 63"
    by simp_all
  have s: "argsort ?labels = [1, 3, 0, 2, 4]"
    by (simp add: argsort_def upt_conv_Cons)
  have u: "[0..<5 :: nat] = [0, 1, 2, 3, 4]" by code_simp
  have l: "length ?labels = 5" by simp
  have b: "is_argsort (argsort ?labels) ?labels"
    unfolding is_argsort_def s l u by simp
  have m: "members ?ids ?labels 7 = [10, 12, 14]" by (simp add: members_def)
  have e: "spikes_per_cluster argsort ?ids ?labels = Inr [(3, [11, 13]), (7, [10, 12, 14])]"
    by (simp add: spikes_per_cluster_def s Let_def np_diff_def int64_def slice_def
        upt_conv_Cons)
  show ?thesis
    using spikes_per_cluster_partition [where np_argsort = argsort, OF a b] e m by simp
qed

section \<open>Properties of \<^verbatim>\<open>_concatenate_per_cluster_arrays\<close>\<close>

lemma argsort_is_argsort: "is_argsort (argsort xs) xs"
proof -
  let ?z = "zip xs [0..<length xs]"
  let ?s = "sort_key fst ?z"
  have z: "map snd ?z = [0..<length xs]" by (rule map_snd_zip) simp
  have "mset (map snd ?s) = mset (map snd ?z)" by (simp only: mset_map mset_sort)
  then have perm: "mset (argsort xs) = mset [0..<length xs]"
    unfolding argsort_def z .
  have "xs ! snd p = fst p" if "p \<in> set ?s" for p
  proof -
    have "p \<in> set ?z" using that by simp
    then show ?thesis by (auto simp: set_zip)
  qed
  then have e: "map (\<lambda>i. xs ! i) (argsort xs) = map fst ?s"
    unfolding argsort_def by simp
  have "sorted (map fst ?s)" by (rule sorted_sort_key)
  then have "sorted (map (\<lambda>i. xs ! i) (argsort xs))" unfolding e .
  then show ?thesis using perm unfolding is_argsort_def by (rule conjI [rotated])
qed

lemma strict_filter_less:
  assumes "sorted_wrt (<) (T :: ('a :: linorder) list)" and "k < length T"
  shows "[t \<leftarrow> T. t < T ! k] = take k T"
proof -
  have a: "filter (\<lambda>t. t < T ! k) (take k T) = take k T"
  proof -
    have "\<forall>t \<in> set (take k T). t < T ! k"
    proof
      fix t
      assume "t \<in> set (take k T)"
      then obtain i where "i < k" "t = T ! i" using assms(2) by (auto simp: in_set_conv_nth)
      then show "t < T ! k" using sorted_wrt_nth_less [OF assms(1), of i k] assms(2) by simp
    qed
    then show ?thesis unfolding filter_id_conv .
  qed
  have b: "filter (\<lambda>t. t < T ! k) (drop k T) = []"
  proof -
    have "\<forall>t \<in> set (drop k T). \<not> t < T ! k"
    proof
      fix t
      assume "t \<in> set (drop k T)"
      then obtain i where "i < length (drop k T)" "drop k T ! i = t"
        by (metis in_set_conv_nth)
      then have i: "i < length T - k" "t = T ! (k + i)" using assms(2) by simp_all
      have "T ! k \<le> T ! (k + i)"
      proof (cases "i = 0")
        case True
        then show ?thesis by simp
      next
        case False
        then have "T ! k < T ! (k + i)"
          using sorted_wrt_nth_less [OF assms(1), of k "k + i"] i(1) by simp
        then show ?thesis by simp
      qed
      then show "\<not> t < T ! k" unfolding i(2) by simp
    qed
    then show ?thesis unfolding filter_empty_conv .
  qed
  have "[t \<leftarrow> T. t < T ! k] = filter (\<lambda>t. t < T ! k) (take k T @ drop k T)" by simp
  also have "\<dots> = take k T" unfolding filter_append a b by simp
  finally show ?thesis .
qed

lemma rank_sorted:
  assumes "distinct spikes" and "k < length spikes"
  shows "rank spikes (sort spikes ! k) = k"
proof -
  let ?T = "sort spikes"
  have strict: "sorted_wrt (<) ?T" using assms(1) by (simp add: strict_sorted_iff)
  have "rank spikes (?T ! k) = size (filter_mset (\<lambda>t. t < ?T ! k) (mset spikes))"
    unfolding rank_def by (metis mset_filter size_mset)
  also have "\<dots> = size (filter_mset (\<lambda>t. t < ?T ! k) (mset ?T))" by (simp only: mset_sort)
  also have "\<dots> = length [t \<leftarrow> ?T. t < ?T ! k]" by (metis mset_filter size_mset)
  also have "\<dots> = k" using assms(2) by (simp add: strict_filter_less [OF strict])
  finally show ?thesis .
qed

lemma argsort_sorts:
  assumes "is_argsort p xs"
  shows "map (\<lambda>i. xs ! i) p = sort xs"
proof -
  have "mset (map (\<lambda>i. xs ! i) p) = image_mset (\<lambda>i. xs ! i) (mset [0..<length xs])"
    using assms by (metis is_argsort_def mset_map)
  also have "\<dots> = mset xs" by (metis map_nth mset_map)
  finally have "mset (map (\<lambda>i. xs ! i) p) = mset xs" .
  then show ?thesis using assms by (metis is_argsort_def properties_for_sort)
qed

lemma argsort_position:
  assumes srt: "is_argsort p spikes" and dist: "distinct spikes" and q: "q < length spikes"
  shows "rank spikes (spikes ! q) < length p \<and> p ! rank spikes (spikes ! q) = q"
proof -
  let ?T = "sort spikes"
  have T: "map (\<lambda>i. spikes ! i) p = ?T" using argsort_sorts [OF srt] .
  have len: "length p = length spikes" using T by (metis length_map length_sort)
  have "spikes ! q \<in> set ?T" using q by simp
  then obtain k where k: "k < length spikes" "?T ! k = spikes ! q"
    by (metis in_set_conv_nth length_sort)
  have r: "rank spikes (spikes ! q) = k" using rank_sorted [OF dist k(1)] k(2) by simp
  have "p ! k < length spikes"
  proof -
    have "p ! k \<in> set p" using k(1) len by simp
    moreover have "set p = {0..<length spikes}"
      using srt by (metis is_argsort_def mset_eq_setD set_upt)
    ultimately show ?thesis by simp
  qed
  moreover have "spikes ! (p ! k) = spikes ! q"
    using T k len by (metis nth_map)
  ultimately have "p ! k = q" using dist q by (simp add: nth_eq_iff_index_eq)
  then show ?thesis using r k(1) len by simp
qed

lemma zip_concat_nth:
  assumes "length xss = length yss"
      and "\<forall>i < length xss. length (xss ! i) = length (yss ! i)"
      and "i < length xss" and "j < length (xss ! i)"
  shows "(xss ! i ! j, yss ! i ! j) \<in> set (zip (concat xss) (concat yss))"
  using assms
proof (induction xss yss arbitrary: i rule: list_induct2)
  case Nil
  then show ?case by simp
next
  case (Cons x xs y ys)
  have xy: "length x = length y" using Cons.prems(1) by auto
  have rest: "\<forall>i < length xs. length (xs ! i) = length (ys ! i)" using Cons.prems(1) by auto
  show ?case
  proof (cases i)
    case 0
    then have "(x ! j, y ! j) \<in> set (zip x y)"
      using Cons.prems(3) xy by (auto simp: set_zip)
    then show ?thesis using 0 xy by simp
  next
    case (Suc i')
    then have "(xs ! i' ! j, ys ! i' ! j) \<in> set (zip (concat xs) (concat ys))"
      using Cons.IH [OF rest, of i'] Cons.prems(2,3) by simp
    then show ?thesis using Suc xy by simp
  qed
qed

lemma distinct_concat_map:
  assumes "distinct cs" and "\<forall>c \<in> set cs. distinct (g c)"
      and "\<forall>c \<in> set cs. \<forall>c' \<in> set cs. c \<noteq> c' \<longrightarrow> set (g c) \<inter> set (g c') = {}"
  shows "distinct (concat (map g cs))"
  using assms
proof (induction cs)
  case Nil
  show ?case by simp
next
  case (Cons c cs)
  have "set (g c) \<inter> set (g c') = {}" if "c' \<in> set cs" for c'
    using Cons.prems(1,3) that by auto
  then have "set (g c) \<inter> set (concat (map g cs)) = {}" by auto
  then show ?case using Cons by simp
qed

lemma length_concat_cong:
  assumes "\<forall>c \<in> set cs. length (f c) = length (g c)"
  shows "length (concat (map f cs)) = length (concat (map g cs))"
  using assms by (induction cs) simp_all

text \<open>
  C2, amended. For every \<^verbatim>\<open>arrays\<close> dictionary with at least one cluster, whose
  clusters are clusters of \<^verbatim>\<open>spikes_per_cluster\<close> and have one row per spike, when the
  spike lists are distinct and pairwise disjoint: the function returns one row per
  spike, and the row of each spike is at the rank of the spike, so the rows are
  ordered by ascending spike id. When the spikes are \<open>0..n-1\<close> and each cluster holds
  the rows of an array \<open>orig\<close> at its spikes, the result is \<open>orig\<close>. This holds for
  every sorting permutation that \<^verbatim>\<open>np.argsort\<close> may return.
\<close>

theorem concatenate_per_cluster_arrays_order:
  fixes spc :: "(int, nat list) dict" and arrays :: "(int, 'r list) dict"
  assumes ne: "arrays \<noteq> []"
      and keys: "set (map fst arrays) \<subseteq> set (map fst spc)"
      and dk: "distinct (map fst arrays)"
      and rows: "\<forall>c \<in> set (map fst arrays).
                   length (the (map_of arrays c)) = length (the (map_of spc c))"
      and part1: "\<forall>c \<in> set (map fst spc). distinct (the (map_of spc c))"
      and part2: "\<forall>c \<in> set (map fst spc). \<forall>c' \<in> set (map fst spc). c \<noteq> c' \<longrightarrow>
                   set (the (map_of spc c)) \<inter> set (the (map_of spc c')) = {}"
      and srt: "\<forall>xs. is_argsort (np_argsort xs) xs"
  shows "\<exists>res. concatenate_per_cluster_arrays np_argsort spc arrays = Inr res
           \<and> length res = length (concatenated spc (sort (map fst arrays)))
           \<and> (\<forall>c \<in> set (map fst arrays). \<forall>j < length (the (map_of spc c)).
                 res ! rank (concatenated spc (sort (map fst arrays))) (the (map_of spc c) ! j)
                 = the (map_of arrays c) ! j)
           \<and> (\<forall>orig. mset (concatenated spc (sort (map fst arrays))) = mset [0..<length orig]
                 \<and> (\<forall>c \<in> set (map fst arrays).
                       the (map_of arrays c) = map (\<lambda>s. orig ! s) (the (map_of spc c)))
                 \<longrightarrow> res = orig)"
proof -
  define clusters where "clusters = sort (map fst arrays)"
  define g where "g = (\<lambda>c. the (map_of spc c))"
  define a where "a = (\<lambda>c. the (map_of arrays c))"
  define spikes where "spikes = concat (map g clusters)"
  define rws where "rws = concat (map a clusters)"
  define idx where "idx = np_argsort spikes"
  define res where "res = map (\<lambda>i. rws ! i) idx"
  have set_cl: "set clusters = set (map fst arrays)" by (simp add: clusters_def)
  have "length clusters = length arrays" by (simp add: clusters_def)
  then have cl_ne: "clusters \<noteq> []" using ne by auto
  have dist_cl: "distinct clusters" using dk by (simp add: clusters_def)
  have lens: "\<forall>c \<in> set clusters. length (a c) = length (g c)"
    using rows set_cl by (simp add: a_def g_def)
  then have n01: "map (\<lambda>cluster. length (the (map_of spc cluster))) clusters
                  = map (\<lambda>cluster. length (the (map_of arrays cluster))) clusters"
    by (simp add: g_def a_def)
  have len_rws: "length rws = length spikes"
    unfolding rws_def spikes_def using lens by (rule length_concat_cong)
  have is_srt: "is_argsort idx spikes" using srt by (simp add: idx_def)
  have set_idx: "set idx = {0..<length spikes}"
    using is_srt by (metis is_argsort_def mset_eq_setD set_upt)
  have chk: "\<not> list_ex (\<lambda>i. length rws \<le> i) idx"
    using set_idx len_rws by (auto simp: list_ex_iff)
  have conc: "concatenated spc (sort (map fst arrays)) = spikes"
    by (simp add: concatenated_def spikes_def clusters_def g_def)
  have run: "concatenate_per_cluster_arrays np_argsort spc arrays = Inr res"
    unfolding concatenate_per_cluster_arrays_def Let_def clusters_def [symmetric]
      g_def [symmetric] a_def [symmetric] spikes_def [symmetric] rws_def [symmetric]
      idx_def [symmetric] res_def [symmetric]
    using keys n01 cl_ne chk by simp
  have len_idx: "length idx = length spikes"
    using is_srt by (metis is_argsort_def mset_eq_length length_upt diff_zero)
  then have len_res: "length res = length spikes" by (simp add: res_def)
  have dist_sp: "distinct spikes"
    unfolding spikes_def
  proof (rule distinct_concat_map [OF dist_cl])
    show "\<forall>c \<in> set clusters. distinct (g c)"
      using part1 keys set_cl unfolding g_def by blast
    show "\<forall>c \<in> set clusters. \<forall>c' \<in> set clusters. c \<noteq> c' \<longrightarrow> set (g c) \<inter> set (g c') = {}"
      using part2 keys set_cl unfolding g_def by blast
  qed
  have place: "res ! rank spikes (g c ! j) = a c ! j"
    if c: "c \<in> set clusters" and j: "j < length (g c)" for c j
  proof -
    obtain i where i: "i < length clusters" "clusters ! i = c"
      using c by (auto simp: in_set_conv_nth)
    have "(map g clusters ! i ! j, map a clusters ! i ! j)
          \<in> set (zip (concat (map g clusters)) (concat (map a clusters)))"
      using lens i j by (intro zip_concat_nth) simp_all
    then have "(g c ! j, a c ! j) \<in> set (zip spikes rws)"
      using i by (simp add: spikes_def rws_def)
    then obtain q where q: "q < length spikes" "spikes ! q = g c ! j" "rws ! q = a c ! j"
      by (auto simp: set_zip)
    have "rank spikes (spikes ! q) < length idx \<and> idx ! rank spikes (spikes ! q) = q"
      using argsort_position [OF is_srt dist_sp q(1)] .
    then show ?thesis using q by (simp add: res_def)
  qed
  have round: "res = orig"
    if m: "mset spikes = mset [0..<length orig]"
      and o: "\<forall>c \<in> set clusters. a c = map (\<lambda>s. orig ! s) (g c)" for orig
  proof -
    have e: "map a clusters = map (\<lambda>c. map (\<lambda>s. orig ! s) (g c)) clusters" using o by simp
    have "concat (map (\<lambda>c. map (\<lambda>s. orig ! s) (g c)) clusters)
          = map (\<lambda>s. orig ! s) (concat (map g clusters))"
      by (simp add: map_concat o_def)
    then have "rws = map (\<lambda>s. orig ! s) spikes"
      unfolding rws_def spikes_def e .
    then have "res = map (\<lambda>i. orig ! (spikes ! i)) idx"
      using set_idx by (simp add: res_def)
    also have "\<dots> = map (\<lambda>s. orig ! s) (map (\<lambda>i. spikes ! i) idx)" by (simp add: o_def)
    also have "map (\<lambda>i. spikes ! i) idx = sort spikes" using argsort_sorts [OF is_srt] .
    also have "sort spikes = [0..<length orig]"
      using m by (metis properties_for_sort sorted_upt)
    also have "map (\<lambda>s. orig ! s) [0..<length orig] = orig" by (rule map_nth)
    finally show ?thesis .
  qed
  show ?thesis
    unfolding conc
    using run len_res place round set_cl
    by (intro exI [of _ res]) (simp add: g_def a_def)
qed

text \<open>
  C2, as stated, fails for the empty dictionaries, which partition the empty set of
  spikes: both assertions pass, \<^verbatim>\<open>clusters\<close> is empty, and \<^verbatim>\<open>np.concatenate\<close> of
  an empty list raises \<^verbatim>\<open>ValueError\<close>, so the function returns no array. Like
  \<^verbatim>\<open>_spikes_per_cluster\<close>, which indexes \<^verbatim>\<open>diff[0]\<close>, the function needs at
  least one cluster.
\<close>

theorem concatenate_per_cluster_arrays_empty_counterexample:
  "concatenate_per_cluster_arrays argsort ([] :: (int, nat list) dict) ([] :: (int, real list) dict)
   = Inl ValueError"
  by (simp add: concatenate_per_cluster_arrays_def)

theorem concatenate_per_cluster_arrays_order_witness:
  "five_rows \<noteq> []
   \<and> set (map fst five_rows) \<subseteq> set (map fst five_spikes)
   \<and> concatenated five_spikes (sort (map fst five_rows)) = [1, 3, 4, 0, 2]
   \<and> concatenate_per_cluster_arrays argsort five_spikes five_rows
       = Inr [''a'', ''b'', ''c'', ''d'', ''e'']"
proof -
  let ?orig = "[''a'', ''b'', ''c'', ''d'', ''e'']"
  have h: "five_rows \<noteq> []" "set (map fst five_rows) \<subseteq> set (map fst five_spikes)"
      "distinct (map fst five_rows)"
      "\<forall>c \<in> set (map fst five_rows).
         length (the (map_of five_rows c)) = length (the (map_of five_spikes c))"
      "\<forall>c \<in> set (map fst five_spikes). distinct (the (map_of five_spikes c))"
      "\<forall>c \<in> set (map fst five_spikes). \<forall>c' \<in> set (map fst five_spikes). c \<noteq> c' \<longrightarrow>
         set (the (map_of five_spikes c)) \<inter> set (the (map_of five_spikes c')) = {}"
    by (simp_all add: five_rows_def five_spikes_def)
  have s: "\<forall>xs :: nat list. is_argsort (argsort xs) xs" by (simp add: argsort_is_argsort)
  have c: "concatenated five_spikes (sort (map fst five_rows)) = [1, 3, 4, 0, 2]"
    by (simp add: concatenated_def five_rows_def five_spikes_def)
  have u: "[0..<5 :: nat] = [0, 1, 2, 3, 4]" by code_simp
  have l: "length ?orig = 5" by simp
  have m: "mset (concatenated five_spikes (sort (map fst five_rows))) = mset [0..<length ?orig]"
    unfolding c l u by simp
  have o: "\<forall>c \<in> set (map fst five_rows).
             the (map_of five_rows c) = map (\<lambda>s. ?orig ! s) (the (map_of five_spikes c))"
    by (simp add: five_rows_def five_spikes_def)
  obtain res where
    r: "concatenate_per_cluster_arrays argsort five_spikes five_rows = Inr res" and
    rt: "\<forall>orig. mset (concatenated five_spikes (sort (map fst five_rows)))
                  = mset [0..<length orig]
               \<and> (\<forall>c \<in> set (map fst five_rows).
                     the (map_of five_rows c) = map (\<lambda>s. orig ! s) (the (map_of five_spikes c)))
               \<longrightarrow> res = orig"
    using concatenate_per_cluster_arrays_order [where np_argsort = argsort, OF h s] by blast
  have "res = ?orig" using rt m o by blast
  then show ?thesis using r h(1,2) c by simp
qed

end
